theory Spec2Isabelle
  imports Main "HOL-Library.AList" "HOL-Library.Sublist"
begin

section \<open>JavaScript values\<close>

text \<open>
  The sanitizer \<open>contentManagementUtilRemoveFieldsFromData\<close> walks a content entry, a
  content-type schema and a table of component schemas, all of them plain JSON-like
  JavaScript values received as \<open>Record<string, unknown>\<close>. They are embedded as one
  datatype. An object is the list of its own enumerable properties in the order
  \<open>Object.keys\<close> enumerates them; an array is the list of its elements. Numbers are
  the integers: the only facts about a number the sanitizer uses are whether it is zero and
  its decimal name as a property key, and \<open>NaN\<close> and fractions are not represented.
  Inherited properties are not part of the embedding: the sanitizer reads own properties
  of the data, and on the schema side only the names \<open>attributes\<close>, \<open>options\<close>,
  \<open>timestamps\<close>, \<open>type\<close>, \<open>component\<close>, \<open>repeatable\<close>, none of
  which \<open>Object.prototype\<close> defines. For the same reason a property is an ordinary data
  property: a record with an own property named \<open>__proto__\<close>, which an assignment
  treats as an accessor, is not represented.
\<close>

datatype jsval =
    JUndefined
  | JNull
  | JBool bool
  | JNum int
  | JStr string
  | JArr "jsval list"
  | JObj "(string \<times> jsval) list"

text \<open>
  The two exceptions the code can raise: \<open>TypeError\<close> (a property read on, or
  \<open>Object.keys\<close> of, \<open>null\<close> or \<open>undefined\<close>; a property key that cannot be
  converted to a string) and \<open>RangeError\<close> (the call stack is exhausted).
\<close>

datatype error = TypeError | RangeError

definition bindE :: "error + 'a \<Rightarrow> ('a \<Rightarrow> error + 'b) \<Rightarrow> error + 'b" where
  "bindE m f = (case m of Inl e \<Rightarrow> Inl e | Inr x \<Rightarrow> f x)"

text \<open>\<open>xs.map(f)\<close>, where \<open>f\<close> may throw: the first exception aborts the map.\<close>

fun mapE :: "('a \<Rightarrow> error + 'b) \<Rightarrow> 'a list \<Rightarrow> error + 'b list" where
  "mapE f [] = Inr []"
| "mapE f (x # xs) =
     (case f x of
        Inl e \<Rightarrow> Inl e
      | Inr y \<Rightarrow> (case mapE f xs of Inl e \<Rightarrow> Inl e | Inr ys \<Rightarrow> Inr (y # ys)))"

text \<open>\<open>xs.reduce(f, acc)\<close>, where \<open>f\<close> may throw.\<close>

fun reduceE :: "('a \<Rightarrow> 'b \<Rightarrow> error + 'a) \<Rightarrow> 'a \<Rightarrow> 'b list \<Rightarrow> error + 'a" where
  "reduceE f acc [] = Inr acc"
| "reduceE f acc (x # xs) =
     (case f acc x of Inl e \<Rightarrow> Inl e | Inr acc' \<Rightarrow> reduceE f acc' xs)"

text \<open>JavaScript truthiness: \<open>!value\<close> holds for the falsy values.\<close>

fun truthy :: "jsval \<Rightarrow> bool" where
  "truthy JUndefined = False"
| "truthy JNull = False"
| "truthy (JBool b) = b"
| "truthy (JNum n) = (n \<noteq> 0)"
| "truthy (JStr s) = (s \<noteq> [])"
| "truthy (JArr xs) = True"
| "truthy (JObj kvs) = True"

fun nullish :: "jsval \<Rightarrow> bool" where
  "nullish JUndefined = True"
| "nullish JNull = True"
| "nullish v = False"

fun isArray :: "jsval \<Rightarrow> bool" where
  "isArray (JArr xs) = True"
| "isArray v = False"

text \<open>The elements of an array, for \<open>value.map\<close> under an \<open>Array.isArray\<close> guard.\<close>

fun elements :: "jsval \<Rightarrow> jsval list" where
  "elements (JArr xs) = xs"
| "elements v = []"

subsection \<open>Property keys\<close>

fun string_of_nat :: "nat \<Rightarrow> string" where
  "string_of_nat n =
     (if n < 10 then [''0123456789'' ! n]
      else string_of_nat (n div 10) @ [''0123456789'' ! (n mod 10)])"

declare string_of_nat.simps [simp del]

definition string_of_int :: "int \<Rightarrow> string" where
  "string_of_int i =
     (if i < 0 then CHR ''-'' # string_of_nat (nat (- i)) else string_of_nat (nat i))"

fun join :: "string \<Rightarrow> string list \<Rightarrow> string" where
  "join sep [] = []"
| "join sep [s] = s"
| "join sep (s # t # ss) = s @ sep @ join sep (t # ss)"

text \<open>
  \<open>ToString\<close>, as applied to a value used as a property key in \<open>obj[key]\<close>. An array
  is joined with commas, \<open>null\<close> and \<open>undefined\<close> elements giving the empty string; a
  plain object gives \<open>[object Object]\<close>, unless it has an own (data) property
  \<open>toString\<close>, which is not callable and makes the conversion throw.
\<close>

fun toString :: "jsval \<Rightarrow> error + string"
  and toStrings :: "jsval list \<Rightarrow> error + string list" where
  "toString JUndefined = Inr ''undefined''"
| "toString JNull = Inr ''null''"
| "toString (JBool b) = Inr (if b then ''true'' else ''false'')"
| "toString (JNum n) = Inr (string_of_int n)"
| "toString (JStr s) = Inr s"
| "toString (JArr xs) = bindE (toStrings xs) (\<lambda>ss. Inr (join '','' ss))"
| "toString (JObj kvs) =
     (if ''toString'' \<in> set (map fst kvs) then Inl TypeError else Inr ''[object Object]'')"
| "toStrings [] = Inr []"
| "toStrings (x # xs) =
     bindE (if nullish x then Inr [] else toString x)
       (\<lambda>s. bindE (toStrings xs) (\<lambda>ss. Inr (s # ss)))"

subsection \<open>Own properties\<close>

definition indexed :: "jsval list \<Rightarrow> (string \<times> jsval) list" where
  "indexed xs = zip (map string_of_nat [0..<length xs]) xs"

text \<open>
  The own enumerable properties of \<open>Object(v)\<close>, as \<open>Object.keys(v)\<close> and
  \<open>Object.assign({}, v)\<close> see them: the index properties of an array or of a string,
  none for a number or a boolean. \<open>Object.keys\<close> throws on \<open>null\<close> and
  \<open>undefined\<close>, which is \<open>None\<close> here.
\<close>

fun own_entries :: "jsval \<Rightarrow> (string \<times> jsval) list option" where
  "own_entries JUndefined = None"
| "own_entries JNull = None"
| "own_entries (JBool b) = Some []"
| "own_entries (JNum n) = Some []"
| "own_entries (JStr s) = Some (indexed (map (\<lambda>c. JStr [c]) s))"
| "own_entries (JArr xs) = Some (indexed xs)"
| "own_entries (JObj kvs) = Some kvs"

text \<open>\<open>v[k]\<close> for a value \<open>v\<close> that is neither \<open>null\<close> nor \<open>undefined\<close>.\<close>

definition getProp :: "jsval \<Rightarrow> string \<Rightarrow> jsval" where
  "getProp v k =
     (case own_entries v of
        None \<Rightarrow> JUndefined
      | Some kvs \<Rightarrow>
          (case map_of kvs k of
             Some x \<Rightarrow> x
           | None \<Rightarrow>
               (if k = ''length'' then
                  (case v of
                     JArr xs \<Rightarrow> JNum (int (length xs))
                   | JStr s \<Rightarrow> JNum (int (length s))
                   | _ \<Rightarrow> JUndefined)
                else JUndefined)))"

text \<open>\<open>v.name\<close>: a \<open>TypeError\<close> when \<open>v\<close> is \<open>null\<close> or \<open>undefined\<close>.\<close>

definition getMember :: "jsval \<Rightarrow> string \<Rightarrow> error + jsval" where
  "getMember v name = (if nullish v then Inl TypeError else Inr (getProp v name))"

text \<open>\<open>v[key]\<close> with a computed key.\<close>

definition getIndex :: "jsval \<Rightarrow> jsval \<Rightarrow> error + jsval" where
  "getIndex v key =
     (if nullish v then Inl TypeError else bindE (toString key) (\<lambda>k. Inr (getProp v k)))"

subsection \<open>lodash \<open>get\<close>\<close>

text \<open>
  \<open>get(object, path)\<close> for a path given as an array of keys: it follows the keys while
  the current value is neither \<open>null\<close> nor \<open>undefined\<close> and gives \<open>undefined\<close>
  when it stops early. \<open>get(data, current)\<close> with a key \<open>current\<close> of \<open>data\<close> is the
  one-element path. \<open>get(object, path, dflt)\<close> replaces an \<open>undefined\<close> result.
\<close>

fun baseGet :: "jsval \<Rightarrow> string list \<Rightarrow> jsval" where
  "baseGet v [] = v"
| "baseGet v (k # ks) = (if nullish v then JUndefined else baseGet (getProp v k) ks)"

definition get :: "jsval \<Rightarrow> string list \<Rightarrow> jsval" where
  "get v path = (if path = [] then JUndefined else baseGet v path)"

definition getOr :: "jsval \<Rightarrow> string list \<Rightarrow> jsval \<Rightarrow> jsval" where
  "getOr v path dflt = (let r = get v path in if r = JUndefined then dflt else r)"

text \<open>
  Modelled from the spec: the module \<open>./getAttributeInfos\<close> with \<open>getType\<close> and
  \<open>getOtherInfos\<close> is not among the sources. The spec gives every field name of a schema
  an attribute schema with an \<open>attributeKind\<close>, a \<open>componentIdentifier\<close> and a
  \<open>repeatable\<close> flag; they are read from \<open>schema.attributes[name]\<close> under the keys
  \<open>type\<close>, \<open>component\<close> and \<open>repeatable\<close>, the way the source reads
  \<open>schema.options.timestamps\<close>, with the empty string for a missing entry.
\<close>

definition getType :: "jsval \<Rightarrow> string \<Rightarrow> jsval" where
  "getType schema attrName = getOr schema [''attributes'', attrName, ''type''] (JStr '''')"

definition getOtherInfos :: "jsval \<Rightarrow> string list \<Rightarrow> jsval" where
  "getOtherInfos schema arr = getOr schema (''attributes'' # arr) (JStr '''')"

section \<open>The sanitizer\<close>

definition defaultFields :: "string list" where
  "defaultFields = [''createdBy'', ''updatedBy'', ''publishedAt'', ''id'', ''_id'']"

text \<open>
  The callback of the \<open>reduce\<close> in \<open>recursiveCleanData\<close>. \<open>acc\<close> is the object under
  construction (its own properties); \<open>rcd\<close> is the recursive call. \<open>delete acc[current]\<close>
  is \<open>AList.delete\<close>, \<open>acc[current] = v\<close> is \<open>AList.update\<close>.
\<close>

definition cleanField ::
  "(jsval \<Rightarrow> jsval \<Rightarrow> error + jsval) \<Rightarrow> jsval \<Rightarrow> string list \<Rightarrow> jsval \<Rightarrow> jsval \<Rightarrow>
   (string \<times> jsval) list \<Rightarrow> string \<Rightarrow> error + (string \<times> jsval) list" where
  "cleanField rcd componentSchema fields data schema acc current =
     (let attrType = getType schema current;
          value = get data [current];
          component = getOtherInfos schema [current, ''component''];
          isRepeatable = getOtherInfos schema [current, ''repeatable''];
          timestamps = (case get schema [''options'', ''timestamps''] of
                          JArr ts \<Rightarrow> ts
                        | _ \<Rightarrow> [])
      in
        if JStr current \<in> set (map JStr fields @ timestamps) then
          Inr (AList.delete current acc)
        else if \<not> truthy value then
          Inr acc
        else if attrType = JStr ''dynamiczone'' \<and> isArray value then
          bindE
            (mapE (\<lambda>componentValue.
               bindE (getMember componentValue ''__component'')
                 (\<lambda>discriminator. bindE (getIndex componentSchema discriminator)
                    (\<lambda>sub. rcd componentValue sub)))
               (elements value))
            (\<lambda>cleaned. Inr (AList.update current (JArr cleaned) acc))
        else if attrType = JStr ''component'' then
          (if truthy isRepeatable \<and> isArray value then
             bindE
               (mapE (\<lambda>compoData.
                  bindE (getIndex componentSchema component) (\<lambda>sub. rcd compoData sub))
                  (elements value))
               (\<lambda>cleaned. Inr (AList.update current (JArr cleaned) acc))
           else
             bindE (getIndex componentSchema component)
               (\<lambda>sub. bindE (rcd value sub)
                  (\<lambda>cleaned. Inr (AList.update current cleaned acc))))
        else Inr acc)"

text \<open>
  \<open>recursiveCleanData\<close>. The closure variables \<open>componentSchema\<close> and \<open>fields\<close> are
  parameters. The first argument bounds the depth of nested calls the stack allows:
  the recursion follows the data and the schema table together, and a call at depth
  zero is the engine's \<open>RangeError\<close>. The accumulator starts as
  \<open>Object.assign({}, data)\<close>.
\<close>

primrec recursiveCleanData ::
  "jsval \<Rightarrow> string list \<Rightarrow> nat \<Rightarrow> jsval \<Rightarrow> jsval \<Rightarrow> error + jsval" where
  "recursiveCleanData componentSchema fields 0 data schema = Inl RangeError"
| "recursiveCleanData componentSchema fields (Suc depth) data schema =
     (case own_entries data of
        None \<Rightarrow> Inl TypeError
      | Some kvs \<Rightarrow>
          bindE
            (reduceE
               (cleanField (recursiveCleanData componentSchema fields depth)
                  componentSchema fields data schema)
               kvs (map fst kvs))
            (\<lambda>acc. Inr (JObj acc)))"

text \<open>
  The exported function. \<open>fields\<close> is optional and defaults to \<open>defaultFields\<close>.
\<close>

definition contentManagementUtilRemoveFieldsFromData ::
  "nat \<Rightarrow> jsval \<Rightarrow> jsval \<Rightarrow> jsval \<Rightarrow> string list option \<Rightarrow> error + jsval" where
  "contentManagementUtilRemoveFieldsFromData depth data contentTypeSchema componentSchema fields =
     recursiveCleanData componentSchema
       (case fields of None \<Rightarrow> defaultFields | Some fs \<Rightarrow> fs)
       depth data contentTypeSchema"

section \<open>Vocabulary of the proofs\<close>

text \<open>
  What one round of the callback does to the accumulator depends on the accumulator only
  through the final write: the callback decides on an action from \<open>data\<close>, \<open>schema\<close>
  and \<open>current\<close>, then deletes the key, leaves the accumulator alone or assigns a
  value. \<open>fieldAction\<close> is that decision, \<open>effectiveExclusions\<close> the list
  \<open>[...fields, ...timestamps]\<close> searched by \<open>indexOf\<close>, \<open>cleanEntry\<close> and
  \<open>cleanCompo\<close> the two callbacks passed to \<open>map\<close>. Lemma \<open>cleanField_action\<close>
  shows that \<open>cleanField\<close> is this decision followed by the write.
\<close>

datatype action = Delete | Keep | Assign jsval

definition effectiveExclusions :: "string list \<Rightarrow> jsval \<Rightarrow> jsval list" where
  "effectiveExclusions fields schema =
     map JStr fields @ (case get schema [''options'', ''timestamps''] of JArr ts \<Rightarrow> ts | _ \<Rightarrow> [])"

definition cleanEntry :: "(jsval \<Rightarrow> jsval \<Rightarrow> error + jsval) \<Rightarrow> jsval \<Rightarrow> jsval \<Rightarrow> error + jsval" where
  "cleanEntry rcd componentSchema componentValue =
     bindE (getMember componentValue ''__component'')
       (\<lambda>discriminator. bindE (getIndex componentSchema discriminator)
          (\<lambda>sub. rcd componentValue sub))"

definition cleanCompo :: "(jsval \<Rightarrow> jsval \<Rightarrow> error + jsval) \<Rightarrow> jsval \<Rightarrow> jsval \<Rightarrow> jsval \<Rightarrow> error + jsval" where
  "cleanCompo rcd componentSchema component compoData =
     bindE (getIndex componentSchema component) (\<lambda>sub. rcd compoData sub)"

definition fieldAction ::
  "(jsval \<Rightarrow> jsval \<Rightarrow> error + jsval) \<Rightarrow> jsval \<Rightarrow> string list \<Rightarrow> jsval \<Rightarrow> jsval \<Rightarrow> string \<Rightarrow> error + action" where
  "fieldAction rcd componentSchema fields data schema current =
     (if JStr current \<in> set (effectiveExclusions fields schema) then Inr Delete
      else if \<not> truthy (get data [current]) then Inr Keep
      else if getType schema current = JStr ''dynamiczone'' \<and> isArray (get data [current]) then
        bindE (mapE (cleanEntry rcd componentSchema) (elements (get data [current])))
          (\<lambda>cleaned. Inr (Assign (JArr cleaned)))
      else if getType schema current = JStr ''component'' then
        (if truthy (getOtherInfos schema [current, ''repeatable'']) \<and> isArray (get data [current]) then
           bindE (mapE (cleanCompo rcd componentSchema (getOtherInfos schema [current, ''component'']))
                    (elements (get data [current])))
             (\<lambda>cleaned. Inr (Assign (JArr cleaned)))
         else
           bindE (cleanCompo rcd componentSchema (getOtherInfos schema [current, ''component''])
                    (get data [current]))
             (\<lambda>cleaned. Inr (Assign cleaned)))
      else Inr Keep)"

fun applyAction :: "action \<Rightarrow> string \<Rightarrow> (string \<times> jsval) list \<Rightarrow> (string \<times> jsval) list" where
  "applyAction Delete k acc = AList.delete k acc"
| "applyAction Keep k acc = acc"
| "applyAction (Assign v) k acc = AList.update k v acc"

fun resultOf :: "action \<Rightarrow> jsval option \<Rightarrow> jsval option" where
  "resultOf Delete old = None"
| "resultOf Keep old = old"
| "resultOf (Assign v) old = Some v"



section \<open>A content entry with a dynamic zone, a repeatable and a single component\<close>









section \<open>Further entries and tables\<close>










section \<open>The sanitizer on a heap\<close>

text \<open>
  To say that a call leaves its inputs alone, objects need an identity. In this second
  embedding a value is a primitive or a reference into a heap of objects and arrays, and
  the record, the schema and the component table all live in the heap. The heap is the
  list of its cells; allocating appends a cell. A reference beyond the heap does not occur
  in a heap built by allocation; it reads as an empty object.

  The code is the same as above, step by step. What changes the heap:
  \<open>Object.assign({}, data)\<close> allocates the accumulator with a shallow copy of the
  properties of \<open>data\<close>, \<open>value.map\<close> allocates the array it returns,
  \<open>delete acc[current]\<close> and \<open>acc[current] = ...\<close> write to the accumulator.
  The conversion of a computed key to a string only reads the heap; it is the parameter
  \<open>toKey\<close>, so that what follows holds for every such conversion.
\<close>

type_synonym addr = nat

datatype hval = HUndefined | HNull | HBool bool | HNum int | HStr string | HRef addr

datatype hobj = HArray "hval list" | HObject "(string \<times> hval) list"

type_synonym heap = "hobj list"

definition alloc :: "heap \<Rightarrow> hobj \<Rightarrow> addr \<times> heap" where
  "alloc h obj = (length h, h @ [obj])"

definition cell :: "heap \<Rightarrow> addr \<Rightarrow> hobj" where
  "cell h a = (if a < length h then h ! a else HObject [])"

fun truthyH :: "hval \<Rightarrow> bool" where
  "truthyH HUndefined = False"
| "truthyH HNull = False"
| "truthyH (HBool b) = b"
| "truthyH (HNum n) = (n \<noteq> 0)"
| "truthyH (HStr s) = (s \<noteq> [])"
| "truthyH (HRef a) = True"

fun nullishH :: "hval \<Rightarrow> bool" where
  "nullishH HUndefined = True"
| "nullishH HNull = True"
| "nullishH v = False"

fun isArrayH :: "heap \<Rightarrow> hval \<Rightarrow> bool" where
  "isArrayH h (HRef a) = (case cell h a of HArray xs \<Rightarrow> True | HObject kvs \<Rightarrow> False)"
| "isArrayH h v = False"

fun elementsH :: "heap \<Rightarrow> hval \<Rightarrow> hval list" where
  "elementsH h (HRef a) = (case cell h a of HArray xs \<Rightarrow> xs | HObject kvs \<Rightarrow> [])"
| "elementsH h v = []"

definition indexedH :: "hval list \<Rightarrow> (string \<times> hval) list" where
  "indexedH xs = zip (map string_of_nat [0..<length xs]) xs"

fun own_entriesH :: "heap \<Rightarrow> hval \<Rightarrow> (string \<times> hval) list option" where
  "own_entriesH h HUndefined = None"
| "own_entriesH h HNull = None"
| "own_entriesH h (HBool b) = Some []"
| "own_entriesH h (HNum n) = Some []"
| "own_entriesH h (HStr s) = Some (indexedH (map (\<lambda>c. HStr [c]) s))"
| "own_entriesH h (HRef a) =
     (case cell h a of HArray xs \<Rightarrow> Some (indexedH xs) | HObject kvs \<Rightarrow> Some kvs)"

definition getPropH :: "heap \<Rightarrow> hval \<Rightarrow> string \<Rightarrow> hval" where
  "getPropH h v k =
     (case own_entriesH h v of
        None \<Rightarrow> HUndefined
      | Some kvs \<Rightarrow>
          (case map_of kvs k of
             Some x \<Rightarrow> x
           | None \<Rightarrow>
               (if k = ''length'' then
                  (case v of
                     HStr s \<Rightarrow> HNum (int (length s))
                   | HRef a \<Rightarrow> (case cell h a of HArray xs \<Rightarrow> HNum (int (length xs))
                                 | HObject kvs \<Rightarrow> HUndefined)
                   | _ \<Rightarrow> HUndefined)
                else HUndefined)))"

definition getMemberH :: "heap \<Rightarrow> hval \<Rightarrow> string \<Rightarrow> error + hval" where
  "getMemberH h v name = (if nullishH v then Inl TypeError else Inr (getPropH h v name))"

definition getIndexH ::
  "(heap \<Rightarrow> hval \<Rightarrow> error + string) \<Rightarrow> heap \<Rightarrow> hval \<Rightarrow> hval \<Rightarrow> error + hval" where
  "getIndexH toKey h v key =
     (if nullishH v then Inl TypeError else bindE (toKey h key) (\<lambda>k. Inr (getPropH h v k)))"

fun baseGetH :: "heap \<Rightarrow> hval \<Rightarrow> string list \<Rightarrow> hval" where
  "baseGetH h v [] = v"
| "baseGetH h v (k # ks) = (if nullishH v then HUndefined else baseGetH h (getPropH h v k) ks)"

definition getH :: "heap \<Rightarrow> hval \<Rightarrow> string list \<Rightarrow> hval" where
  "getH h v path = (if path = [] then HUndefined else baseGetH h v path)"

definition getOrH :: "heap \<Rightarrow> hval \<Rightarrow> string list \<Rightarrow> hval \<Rightarrow> hval" where
  "getOrH h v path dflt = (let r = getH h v path in if r = HUndefined then dflt else r)"

definition getTypeH :: "heap \<Rightarrow> hval \<Rightarrow> string \<Rightarrow> hval" where
  "getTypeH h schema attrName = getOrH h schema [''attributes'', attrName, ''type''] (HStr [])"

definition getOtherInfosH :: "heap \<Rightarrow> hval \<Rightarrow> string list \<Rightarrow> hval" where
  "getOtherInfosH h schema arr = getOrH h schema (''attributes'' # arr) (HStr [])"

definition deleteH :: "heap \<Rightarrow> addr \<Rightarrow> string \<Rightarrow> heap" where
  "deleteH h acc current =
     (case cell h acc of
        HObject kvs \<Rightarrow> h[acc := HObject (AList.delete current kvs)]
      | HArray xs \<Rightarrow> h)"

definition assignH :: "heap \<Rightarrow> addr \<Rightarrow> string \<Rightarrow> hval \<Rightarrow> heap" where
  "assignH h acc current v =
     (case cell h acc of
        HObject kvs \<Rightarrow> h[acc := HObject (AList.update current v kvs)]
      | HArray xs \<Rightarrow> h)"

fun mapH ::
  "('a \<Rightarrow> heap \<Rightarrow> (error + 'b) \<times> heap) \<Rightarrow> 'a list \<Rightarrow> heap \<Rightarrow> (error + 'b list) \<times> heap" where
  "mapH f [] h = (Inr [], h)"
| "mapH f (x # xs) h =
     (case f x h of
        (Inl e, h') \<Rightarrow> (Inl e, h')
      | (Inr y, h') \<Rightarrow>
          (case mapH f xs h' of
             (Inl e, h'') \<Rightarrow> (Inl e, h'')
           | (Inr ys, h'') \<Rightarrow> (Inr (y # ys), h'')))"

definition arrayMapH ::
  "(hval \<Rightarrow> heap \<Rightarrow> (error + hval) \<times> heap) \<Rightarrow> hval list \<Rightarrow> heap \<Rightarrow> (error + hval) \<times> heap" where
  "arrayMapH f xs h =
     (case alloc h (HArray []) of
        (a, h1) \<Rightarrow>
          (case mapH f xs h1 of
             (Inl e, h2) \<Rightarrow> (Inl e, h2)
           | (Inr ys, h2) \<Rightarrow> (Inr (HRef a), h2[a := HArray ys])))"

fun reduceH ::
  "(addr \<Rightarrow> 'b \<Rightarrow> heap \<Rightarrow> (error + addr) \<times> heap) \<Rightarrow> addr \<Rightarrow> 'b list \<Rightarrow> heap \<Rightarrow>
   (error + addr) \<times> heap" where
  "reduceH f acc [] h = (Inr acc, h)"
| "reduceH f acc (x # xs) h =
     (case f acc x h of
        (Inl e, h') \<Rightarrow> (Inl e, h')
      | (Inr acc', h') \<Rightarrow> reduceH f acc' xs h')"

definition cleanFieldH ::
  "(hval \<Rightarrow> hval \<Rightarrow> heap \<Rightarrow> (error + hval) \<times> heap) \<Rightarrow>
   (heap \<Rightarrow> hval \<Rightarrow> error + string) \<Rightarrow> hval \<Rightarrow> string list \<Rightarrow> hval \<Rightarrow> hval \<Rightarrow>
   addr \<Rightarrow> string \<Rightarrow> heap \<Rightarrow> (error + addr) \<times> heap" where
  "cleanFieldH rcd toKey componentSchema fields data schema acc current h =
     (let attrType = getTypeH h schema current;
          value = getH h data [current];
          component = getOtherInfosH h schema [current, ''component''];
          isRepeatable = getOtherInfosH h schema [current, ''repeatable''];
          timestamps = (if isArrayH h (getH h schema [''options'', ''timestamps''])
                        then elementsH h (getH h schema [''options'', ''timestamps''])
                        else [])
      in
        if HStr current \<in> set (map HStr fields @ timestamps) then
          (Inr acc, deleteH h acc current)
        else if \<not> truthyH value then
          (Inr acc, h)
        else if attrType = HStr ''dynamiczone'' \<and> isArrayH h value then
          (case arrayMapH (\<lambda>componentValue h.
                   case getMemberH h componentValue ''__component'' of
                     Inl e \<Rightarrow> (Inl e, h)
                   | Inr discriminator \<Rightarrow>
                       (case getIndexH toKey h componentSchema discriminator of
                          Inl e \<Rightarrow> (Inl e, h)
                        | Inr sub \<Rightarrow> rcd componentValue sub h))
                 (elementsH h value) h of
             (Inl e, h') \<Rightarrow> (Inl e, h')
           | (Inr cleaned, h') \<Rightarrow> (Inr acc, assignH h' acc current cleaned))
        else if attrType = HStr ''component'' then
          (if truthyH isRepeatable \<and> isArrayH h value then
             (case arrayMapH (\<lambda>compoData h.
                      case getIndexH toKey h componentSchema component of
                        Inl e \<Rightarrow> (Inl e, h)
                      | Inr sub \<Rightarrow> rcd compoData sub h)
                    (elementsH h value) h of
                (Inl e, h') \<Rightarrow> (Inl e, h')
              | (Inr cleaned, h') \<Rightarrow> (Inr acc, assignH h' acc current cleaned))
           else
             (case getIndexH toKey h componentSchema component of
                Inl e \<Rightarrow> (Inl e, h)
              | Inr sub \<Rightarrow>
                  (case rcd value sub h of
                     (Inl e, h') \<Rightarrow> (Inl e, h')
                   | (Inr cleaned, h') \<Rightarrow> (Inr acc, assignH h' acc current cleaned))))
        else (Inr acc, h))"

primrec recursiveCleanDataH ::
  "(heap \<Rightarrow> hval \<Rightarrow> error + string) \<Rightarrow> hval \<Rightarrow> string list \<Rightarrow> nat \<Rightarrow> hval \<Rightarrow> hval \<Rightarrow>
   heap \<Rightarrow> (error + hval) \<times> heap" where
  "recursiveCleanDataH toKey componentSchema fields 0 data schema h = (Inl RangeError, h)"
| "recursiveCleanDataH toKey componentSchema fields (Suc depth) data schema h =
     (case own_entriesH h data of
        None \<Rightarrow> (Inl TypeError, h)
      | Some kvs \<Rightarrow>
          (case alloc h (HObject kvs) of
             (acc, h1) \<Rightarrow>
               (case reduceH
                       (cleanFieldH (recursiveCleanDataH toKey componentSchema fields depth)
                          toKey componentSchema fields data schema)
                       acc (map fst kvs) h1 of
                  (Inl e, h2) \<Rightarrow> (Inl e, h2)
                | (Inr acc', h2) \<Rightarrow> (Inr (HRef acc'), h2))))"

definition contentManagementUtilRemoveFieldsFromDataH ::
  "(heap \<Rightarrow> hval \<Rightarrow> error + string) \<Rightarrow> nat \<Rightarrow> hval \<Rightarrow> hval \<Rightarrow> hval \<Rightarrow>
   string list option \<Rightarrow> heap \<Rightarrow> (error + hval) \<times> heap" where
  "contentManagementUtilRemoveFieldsFromDataH toKey depth data contentTypeSchema componentSchema
     fields h =
     recursiveCleanDataH toKey componentSchema
       (case fields of None \<Rightarrow> defaultFields | Some fs \<Rightarrow> fs)
       depth data contentTypeSchema h"

text \<open>
  An entry with a plain object \<open>author\<close>, a repeatable component \<open>images\<close> and a
  component \<open>seo\<close> without a schema in the table; cells 5 to 8 are the schema, cells
  9 and 10 the table. \<open>primitiveKey\<close> is \<open>ToString\<close> on the primitive values, the
  only keys of this example; it is not defined on references.
\<close>

definition primitiveKey :: "heap \<Rightarrow> hval \<Rightarrow> error + string" where
  "primitiveKey h key =
     (case key of
        HUndefined \<Rightarrow> Inr ''undefined''
      | HNull \<Rightarrow> Inr ''null''
      | HBool b \<Rightarrow> Inr (if b then ''true'' else ''false'')
      | HNum n \<Rightarrow> Inr (string_of_int n)
      | HStr s \<Rightarrow> Inr s
      | HRef a \<Rightarrow> Inl TypeError)"

definition exampleHeap :: heap where
  "exampleHeap =
     [HObject [(''id'', HNum 7), (''title'', HStr ''Hi''), (''author'', HRef 1),
               (''images'', HRef 2), (''seo'', HRef 4)],
      HObject [(''id'', HNum 9), (''name'', HStr ''A'')],
      HArray [HRef 3],
      HObject [(''id'', HNum 1), (''url'', HStr ''a'')],
      HObject [(''id'', HNum 3), (''metaTitle'', HStr ''M'')],
      HObject [(''attributes'', HRef 6)],
      HObject [(''images'', HRef 7), (''seo'', HRef 8)],
      HObject [(''type'', HStr ''component''), (''component'', HStr ''img''),
               (''repeatable'', HBool True)],
      HObject [(''type'', HStr ''component''), (''component'', HStr ''meta'')],
      HObject [(''img'', HRef 10)],
      HObject []]"

section \<open>Reading a heap as a value\<close>

text \<open>
  The two embeddings are related by reading a heap value as a tree: \<open>repr A h v x\<close> holds when
  the value \<open>v\<close>, followed through the cells of \<open>h\<close> at addresses of \<open>A\<close> only, spells out the
  tree \<open>x\<close>. The arguments of a call live below an address \<open>N\<close> (\<open>inputs N\<close>); the cells a call
  allocates lie at or above the length \<open>L\<close> of the heap it started from (\<open>fresh N L\<close> adds them
  to the inputs). \<open>sim\<close> relates an outcome on the heap with an outcome on trees: the same
  exception, or a value that reads as the tree, over a heap that extends the initial one.
  The remaining definitions name the invariant of the accumulator of \<open>reduce\<close> and the
  branches of the callback, on both sides. \<open>toKeyOf\<close> is \<open>ToString\<close> read through the
  heap: the key of a value is the key of the tree it reads as, which is unique. It is the
  conversion the heap embedding is run with when the two embeddings are compared, and it
  is not evaluated anywhere.
\<close>

inductive repr :: "addr set \<Rightarrow> heap \<Rightarrow> hval \<Rightarrow> jsval \<Rightarrow> bool" for A :: "addr set" and h :: heap where
  repr_undefined: "repr A h HUndefined JUndefined"
| repr_null: "repr A h HNull JNull"
| repr_bool: "repr A h (HBool b) (JBool b)"
| repr_num: "repr A h (HNum n) (JNum n)"
| repr_str: "repr A h (HStr s) (JStr s)"
| repr_array: "a \<in> A \<Longrightarrow> a < length h \<Longrightarrow> h ! a = HArray vs \<Longrightarrow>
     list_all2 (repr A h) vs xs \<Longrightarrow> repr A h (HRef a) (JArr xs)"
| repr_object: "a \<in> A \<Longrightarrow> a < length h \<Longrightarrow> h ! a = HObject hkvs \<Longrightarrow>
     list_all2 (\<lambda>p q. fst p = fst q \<and> repr A h (snd p) (snd q)) hkvs kvs \<Longrightarrow>
     repr A h (HRef a) (JObj kvs)"

definition fieldsRel :: "addr set \<Rightarrow> heap \<Rightarrow> (string \<times> hval) list \<Rightarrow> (string \<times> jsval) list \<Rightarrow> bool" where
  "fieldsRel A h hkvs kvs = list_all2 (\<lambda>p q. fst p = fst q \<and> repr A h (snd p) (snd q)) hkvs kvs"

definition inputs :: "nat \<Rightarrow> addr set" where
  "inputs N = {a. a < N}"

definition fresh :: "nat \<Rightarrow> nat \<Rightarrow> addr set" where
  "fresh N L = {a. a < N \<or> L \<le> a}"

definition sim :: "nat \<Rightarrow> heap \<Rightarrow> (error + hval) \<times> heap \<Rightarrow> error + jsval \<Rightarrow> bool" where
  "sim N h out res \<longleftrightarrow>
     prefix h (snd out) \<and>
     (case res of
        Inl e \<Rightarrow> fst out = Inl e
      | Inr r \<Rightarrow> (\<exists>v. fst out = Inr v \<and> repr (fresh N (length h)) (snd out) v r))"

definition mapSim ::
  "nat \<Rightarrow> heap \<Rightarrow> (error + hval list) \<times> heap \<Rightarrow> error + jsval list \<Rightarrow> bool" where
  "mapSim N h out res \<longleftrightarrow>
     prefix h (snd out) \<and>
     (case res of
        Inl e \<Rightarrow> fst out = Inl e
      | Inr rs \<Rightarrow>
          (\<exists>vs. fst out = Inr vs \<and> list_all2 (repr (fresh N (length h)) (snd out)) vs rs))"

definition accInv :: "nat \<Rightarrow> heap \<Rightarrow> heap \<Rightarrow> (string \<times> jsval) list \<Rightarrow> bool" where
  "accInv N h0 h acc \<longleftrightarrow>
     prefix h0 h \<and> length h0 < length h \<and>
     (\<exists>hacc. h ! length h0 = HObject hacc \<and> fieldsRel (fresh N (Suc (length h0))) h hacc acc)"

definition stepSim ::
  "nat \<Rightarrow> heap \<Rightarrow> (error + addr) \<times> heap \<Rightarrow> error + (string \<times> jsval) list \<Rightarrow> bool" where
  "stepSim N h0 out res \<longleftrightarrow>
     (case res of
        Inl e \<Rightarrow> fst out = Inl e \<and> prefix h0 (snd out)
      | Inr acc' \<Rightarrow> fst out = Inr (length h0) \<and> accInv N h0 (snd out) acc')"

definition effectiveExclusionsH :: "heap \<Rightarrow> string list \<Rightarrow> hval \<Rightarrow> hval list" where
  "effectiveExclusionsH h fields schema =
     map HStr fields @
     (if isArrayH h (getH h schema [''options'', ''timestamps''])
      then elementsH h (getH h schema [''options'', ''timestamps'']) else [])"

definition cleanEntryH ::
  "(hval \<Rightarrow> hval \<Rightarrow> heap \<Rightarrow> (error + hval) \<times> heap) \<Rightarrow> (heap \<Rightarrow> hval \<Rightarrow> error + string) \<Rightarrow>
   hval \<Rightarrow> hval \<Rightarrow> heap \<Rightarrow> (error + hval) \<times> heap" where
  "cleanEntryH rcd toKey componentSchema componentValue h =
     (case getMemberH h componentValue ''__component'' of
        Inl e \<Rightarrow> (Inl e, h)
      | Inr discriminator \<Rightarrow>
          (case getIndexH toKey h componentSchema discriminator of
             Inl e \<Rightarrow> (Inl e, h)
           | Inr sub \<Rightarrow> rcd componentValue sub h))"

definition cleanCompoH ::
  "(hval \<Rightarrow> hval \<Rightarrow> heap \<Rightarrow> (error + hval) \<times> heap) \<Rightarrow> (heap \<Rightarrow> hval \<Rightarrow> error + string) \<Rightarrow>
   hval \<Rightarrow> hval \<Rightarrow> hval \<Rightarrow> heap \<Rightarrow> (error + hval) \<times> heap" where
  "cleanCompoH rcd toKey componentSchema component compoData h =
     (case getIndexH toKey h componentSchema component of
        Inl e \<Rightarrow> (Inl e, h)
      | Inr sub \<Rightarrow> rcd compoData sub h)"

definition storeH :: "addr \<Rightarrow> string \<Rightarrow> (error + hval) \<times> heap \<Rightarrow> (error + addr) \<times> heap" where
  "storeH acc current out =
     (case out of
        (Inl e, h') \<Rightarrow> (Inl e, h')
      | (Inr cleaned, h') \<Rightarrow> (Inr acc, assignH h' acc current cleaned))"

definition store :: "(string \<times> jsval) list \<Rightarrow> string \<Rightarrow> error + jsval \<Rightarrow> error + (string \<times> jsval) list" where
  "store acc current res = bindE res (\<lambda>cleaned. Inr (AList.update current cleaned acc))"

definition arrayOf :: "error + jsval list \<Rightarrow> error + jsval" where
  "arrayOf m = (case m of Inl e \<Rightarrow> Inl e | Inr rs \<Rightarrow> Inr (JArr rs))"

definition toKeyOf :: "heap \<Rightarrow> hval \<Rightarrow> error + string" where
  "toKeyOf h v = (if \<exists>x. repr UNIV h v x then toString (THE x. repr UNIV h v x) else Inl TypeError)"


section \<open>The error monad, \<open>map\<close> and \<open>reduce\<close>\<close>

lemma bindE_Inl [simp]: "bindE (Inl e) f = Inl e"
  by (simp add: bindE_def)

lemma bindE_Inr [simp]: "bindE (Inr x) f = f x"
  by (simp add: bindE_def)

lemma bindE_eq_Inr: "bindE m f = Inr y \<longleftrightarrow> (\<exists>x. m = Inr x \<and> f x = Inr y)"
  by (cases m) simp_all

lemma mapE_eq_Inr: "mapE f xs = Inr ys \<longleftrightarrow> list_all2 (\<lambda>x y. f x = Inr y) xs ys"
proof (induction xs arbitrary: ys)
  case Nil
  show ?case by auto
next
  case (Cons x xs)
  show ?case
  proof (cases "f x")
    case (Inl e)
    then show ?thesis by (auto simp: list_all2_Cons1)
  next
    case (Inr y)
    then show ?thesis using Cons.IH
      by (cases "mapE f xs") (auto simp: list_all2_Cons1)
  qed
qed

lemma bindE_assoc: "bindE (bindE m f) g = bindE m (\<lambda>x. bindE (f x) g)"
  by (cases m) simp_all

lemma bindE_if: "bindE (if c then m else m') f = (if c then bindE m f else bindE m' f)"
  by simp

lemma reduceE_Cons: "reduceE f acc (x # xs) = bindE (f acc x) (\<lambda>acc'. reduceE f acc' xs)"
  by (simp add: bindE_def)

section \<open>One level of the recursion\<close>

lemma cleanField_action:
  "cleanField rcd C fs data S acc current =
     bindE (fieldAction rcd C fs data S current) (\<lambda>a. Inr (applyAction a current acc))"
  unfolding cleanField_def fieldAction_def effectiveExclusions_def cleanEntry_def cleanCompo_def Let_def
    bindE_if bindE_assoc bindE_Inr applyAction.simps
  by (rule refl)


lemma resultOf_idem [simp]: "resultOf a (resultOf a old) = resultOf a old"
  by (cases a) simp_all













lemma level_fields:
  assumes "recursiveCleanData C fs (Suc n) data S = Inr r" and "own_entries data = Some kvs"
  shows "\<exists>out. r = JObj out \<and>
     reduceE (cleanField (recursiveCleanData C fs n) C fs data S) kvs (map fst kvs) = Inr out"
  using assms by (auto simp: bindE_eq_Inr)

lemma level_entries:
  assumes "recursiveCleanData C fs (Suc n) data S = Inr r"
  shows "\<exists>kvs. own_entries data = Some kvs"
  using assms by (cases "own_entries data") simp_all



section \<open>The depth of the stack\<close>

text \<open>
  The depth only bounds the recursion: a call that returns a record with a stack of depth
  \<open>n\<close> returns the same record with every deeper stack.
\<close>

lemma mapE_mono:
  assumes "\<And>x y. f x = Inr y \<Longrightarrow> g x = Inr y" and "mapE f xs = Inr ys"
  shows "mapE g xs = Inr ys"
proof -
  from assms(2) have "list_all2 (\<lambda>x y. f x = Inr y) xs ys" by (simp add: mapE_eq_Inr)
  then have "list_all2 (\<lambda>x y. g x = Inr y) xs ys"
    by (rule list_all2_mono) (rule assms(1))
  then show ?thesis by (simp add: mapE_eq_Inr)
qed

lemma fieldAction_mono:
  assumes rcd: "\<And>x s r. rcd x s = Inr r \<Longrightarrow> rcd' x s = Inr r"
    and a: "fieldAction rcd C fs data S k = Inr a"
  shows "fieldAction rcd' C fs data S k = Inr a"
proof -
  have entry: "cleanEntry rcd' C x = Inr y" if "cleanEntry rcd C x = Inr y" for x y
    using that rcd by (auto simp: cleanEntry_def bindE_eq_Inr)
  have compo: "cleanCompo rcd' C c x = Inr y" if "cleanCompo rcd C c x = Inr y" for c x y
    using that rcd by (auto simp: cleanCompo_def bindE_eq_Inr)
  from a show ?thesis
    unfolding fieldAction_def
    by (auto simp: bindE_eq_Inr split: if_splits intro: mapE_mono [OF entry] mapE_mono [OF compo] compo)
qed

lemma reduce_mono:
  assumes rcd: "\<And>x s r. rcd x s = Inr r \<Longrightarrow> rcd' x s = Inr r"
  shows "reduceE (cleanField rcd C fs data S) acc ks = Inr out \<Longrightarrow>
         reduceE (cleanField rcd' C fs data S) acc ks = Inr out"
proof (induction ks arbitrary: acc)
  case Nil
  then show ?case by simp
next
  case (Cons current ks)
  have "cleanField rcd C fs data S acc current =
      bindE (fieldAction rcd C fs data S current) (\<lambda>a. Inr (applyAction a current acc))"
    by (rule cleanField_action)
  with Cons.prems obtain a where a: "fieldAction rcd C fs data S current = Inr a"
    and rest: "reduceE (cleanField rcd C fs data S) (applyAction a current acc) ks = Inr out"
    by (cases "fieldAction rcd C fs data S current") simp_all
  from fieldAction_mono [OF rcd a]
  have "cleanField rcd' C fs data S acc current = Inr (applyAction a current acc)"
    by (simp add: cleanField_action)
  with Cons.IH [OF rest] show ?case by simp
qed

lemma deeper_stack_same_result:
  "recursiveCleanData C fs n data S = Inr r \<Longrightarrow> recursiveCleanData C fs (Suc n) data S = Inr r"
proof (induction n arbitrary: data S r)
  case 0
  then show ?case by simp
next
  case (Suc n)
  from Suc.prems obtain kvs where kvs: "own_entries data = Some kvs"
    using level_entries by blast
  from level_fields [OF Suc.prems kvs] obtain out where r: "r = JObj out"
    and red: "reduceE (cleanField (recursiveCleanData C fs n) C fs data S) kvs (map fst kvs) = Inr out"
    by blast
  have "reduceE (cleanField (recursiveCleanData C fs (Suc n)) C fs data S) kvs (map fst kvs) = Inr out"
    using red by (rule reduce_mono [rotated]) (rule Suc.IH)
  with kvs r show ?case by simp
qed

lemma enough_stack:
  assumes "recursiveCleanData C fs n data S = Inr r" and "n \<le> m"
  shows "recursiveCleanData C fs m data S = Inr r"
  using assms(2)
proof (induction rule: dec_induct)
  case base
  show ?case by (rule assms(1))
next
  case (step k)
  then show ?case by (intro deeper_stack_same_result)
qed

section \<open>Fields that pass through\<close>



section \<open>Excluded names\<close>




section \<open>Falsy fields and scalar fields\<close>








section \<open>The effective exclusion set\<close>








section \<open>Dynamic zones and repeatable components\<close>






section \<open>Cleaning twice\<close>




lemma getProp_undefined_scalar [simp]:
  "getProp JUndefined k = JUndefined" "getProp (JNum i) k = JUndefined"
  by (simp_all add: getProp_def)








section \<open>Identifiers without a schema\<close>


lemma effectiveExclusions_undefined [simp]:
  "effectiveExclusions fs JUndefined = map JStr fs"
  by (simp add: effectiveExclusions_def get_def)

lemma getType_undefined [simp]: "getType JUndefined k = JStr []"
  by (simp add: getType_def getOr_def get_def)



section \<open>The inputs are left unchanged\<close>

lemma prefix_alloc: "alloc h obj = (a, h') \<Longrightarrow> prefix h h' \<and> a = length h \<and> length h' = Suc (length h)"
  by (auto simp: alloc_def)

lemma prefix_update:
  assumes "prefix h0 h" and "length h0 \<le> a"
  shows "prefix h0 (h[a := obj])"
proof -
  from assms(1) obtain zs where "h = h0 @ zs" by (auto simp: prefix_def)
  with assms(2) show ?thesis by (simp add: list_update_append)
qed

lemma prefix_deleteH: "prefix h0 h \<Longrightarrow> length h0 \<le> a \<Longrightarrow> prefix h0 (deleteH h a k)"
  by (simp add: deleteH_def prefix_update split: hobj.splits)

lemma prefix_assignH: "prefix h0 h \<Longrightarrow> length h0 \<le> a \<Longrightarrow> prefix h0 (assignH h a k v)"
  by (simp add: assignH_def prefix_update split: hobj.splits)

lemma prefix_mapH:
  assumes "\<And>x h. prefix h (snd (f x h))"
  shows "prefix h (snd (mapH f xs h))"
proof (induction xs arbitrary: h)
  case Nil
  show ?case by simp
next
  case (Cons x xs)
  obtain r h' where fx: "f x h = (r, h')" by (cases "f x h")
  with assms [of h x] have p1: "prefix h h'" by simp
  show ?case
  proof (cases r)
    case (Inl e)
    with fx p1 show ?thesis by simp
  next
    case (Inr y)
    obtain rs h'' where rest: "mapH f xs h' = (rs, h'')" by (cases "mapH f xs h'")
    with Cons.IH [of h'] have "prefix h' h''" by simp
    with p1 have "prefix h h''" by (rule prefix_order.trans)
    with fx Inr rest show ?thesis by (cases rs) simp_all
  qed
qed

lemma prefix_arrayMapH:
  assumes "\<And>x h. prefix h (snd (f x h))"
  shows "prefix h (snd (arrayMapH f xs h))"
proof -
  obtain rs h2 where m: "mapH f xs (h @ [HArray []]) = (rs, h2)"
    by (cases "mapH f xs (h @ [HArray []])")
  from prefix_mapH [of f "h @ [HArray []]" xs, OF assms] m have p: "prefix (h @ [HArray []]) h2"
    by simp
  then have ph: "prefix h h2" using prefix_order.trans [of h "h @ [HArray []]" h2] by simp
  show ?thesis
  proof (cases rs)
    case (Inl e)
    with m ph show ?thesis by (simp add: arrayMapH_def alloc_def)
  next
    case (Inr ys)
    from ph have "prefix h (h2[length h := HArray ys])" by (rule prefix_update) simp
    with m Inr show ?thesis by (simp add: arrayMapH_def alloc_def)
  qed
qed

lemma cleanFieldH_frame:
  assumes rcd: "\<And>x s h. prefix h (snd (rcd x s h))"
    and h0: "prefix h0 h" and acc: "length h0 \<le> acc"
  shows "prefix h0 (snd (cleanFieldH rcd toKey C fs data S acc current h)) \<and>
     (\<forall>acc'. fst (cleanFieldH rcd toKey C fs data S acc current h) = Inr acc' \<longrightarrow> acc' = acc)"
proof -
  let ?entry = "\<lambda>componentValue h.
                   case getMemberH h componentValue ''__component'' of
                     Inl e \<Rightarrow> (Inl e, h)
                   | Inr discriminator \<Rightarrow>
                       (case getIndexH toKey h C discriminator of
                          Inl e \<Rightarrow> (Inl e, h)
                        | Inr sub \<Rightarrow> rcd componentValue sub h)"
  let ?compo = "\<lambda>compoData h'.
                      case getIndexH toKey h' C (getOtherInfosH h S [current, ''component'']) of
                        Inl e \<Rightarrow> (Inl e, h')
                      | Inr sub \<Rightarrow> rcd compoData sub h'"
  have entry: "prefix h (snd (?entry x h))" for x h
    using rcd by (simp split: sum.splits)
  have compo: "prefix h (snd (?compo x h))" for x h
    using rcd by (simp split: sum.splits)
  have after: "prefix h0 h'" if "prefix h h'" for h'
    using h0 that by (rule prefix_order.trans)
  have mapped: "prefix h0 (snd (case arrayMapH f xs h of
             (Inl e, h') \<Rightarrow> (Inl e, h')
           | (Inr cleaned, h') \<Rightarrow> (Inr acc, assignH h' acc current cleaned))) \<and>
      (\<forall>acc'. fst (case arrayMapH f xs h of
             (Inl e, h') \<Rightarrow> (Inl e, h')
           | (Inr cleaned, h') \<Rightarrow> (Inr acc, assignH h' acc current cleaned)) = Inr acc'
         \<longrightarrow> acc' = acc)"
    if f: "\<And>x h. prefix h (snd (f x h))" for f xs
  proof -
    obtain r h' where m: "arrayMapH f xs h = (r, h')" by (cases "arrayMapH f xs h")
    with prefix_arrayMapH [of f h xs, OF f] have "prefix h0 h'" by (simp add: after)
    with m acc show ?thesis by (cases r) (simp_all add: prefix_assignH)
  qed
  have single: "prefix h0 (snd (case rcd v sub h of
                     (Inl e, h') \<Rightarrow> (Inl e, h')
                   | (Inr cleaned, h') \<Rightarrow> (Inr acc, assignH h' acc current cleaned))) \<and>
      (\<forall>acc'. fst (case rcd v sub h of
                     (Inl e, h') \<Rightarrow> (Inl e, h')
                   | (Inr cleaned, h') \<Rightarrow> (Inr acc, assignH h' acc current cleaned)) = Inr acc'
         \<longrightarrow> acc' = acc)" for v sub
  proof -
    obtain r h' where m: "rcd v sub h = (r, h')" by (cases "rcd v sub h")
    with rcd [of h v sub] have "prefix h0 h'" by (simp add: after)
    with m acc show ?thesis by (cases r) (simp_all add: prefix_assignH)
  qed
  show ?thesis
    unfolding cleanFieldH_def Let_def
    using h0 acc mapped [of ?entry, OF entry] mapped [of ?compo, OF compo] single
    by (simp add: prefix_deleteH split: sum.splits)
qed

lemma reduceH_frame:
  assumes rcd: "\<And>x s h. prefix h (snd (rcd x s h))"
    and h0: "prefix h0 h" and acc: "length h0 \<le> acc"
  shows "prefix h0 (snd (reduceH (cleanFieldH rcd toKey C fs data S) acc ks h))"
  using h0
proof (induction ks arbitrary: h)
  case Nil
  then show ?case by simp
next
  case (Cons current ks)
  obtain r h' where step: "cleanFieldH rcd toKey C fs data S acc current h = (r, h')"
    by (cases "cleanFieldH rcd toKey C fs data S acc current h")
  from cleanFieldH_frame [of rcd h0 h acc toKey C fs data S current, OF rcd Cons.prems acc] step
  have p: "prefix h0 h'" and same: "\<And>acc'. r = Inr acc' \<Longrightarrow> acc' = acc"
    by simp_all
  show ?case
  proof (cases r)
    case (Inl e)
    with step p show ?thesis by simp
  next
    case (Inr acc')
    with same have "acc' = acc" by simp
    with step Inr Cons.IH [OF p] show ?thesis by simp
  qed
qed

lemma recursiveCleanDataH_frame:
  "prefix h (snd (recursiveCleanDataH toKey C fs n data S h))"
proof (induction n arbitrary: data S h)
  case 0
  show ?case by simp
next
  case (Suc n)
  show ?case
  proof (cases "own_entriesH h data")
    case None
    then show ?thesis by simp
  next
    case (Some kvs)
    let ?h1 = "h @ [HObject kvs]"
    obtain r h2 where red: "reduceH
        (cleanFieldH (recursiveCleanDataH toKey C fs n) toKey C fs data S)
        (length h) (map fst kvs) ?h1 = (r, h2)"
      by (cases "reduceH (cleanFieldH (recursiveCleanDataH toKey C fs n) toKey C fs data S)
        (length h) (map fst kvs) ?h1")
    have "prefix h (snd (reduceH
        (cleanFieldH (recursiveCleanDataH toKey C fs n) toKey C fs data S)
        (length h) (map fst kvs) ?h1))"
      by (rule reduceH_frame) (simp_all add: Suc.IH)
    with red have "prefix h h2" by simp
    with Some red show ?thesis
      by (cases r) (simp_all add: alloc_def)
  qed
qed


text \<open>
  On the example heap the call appends four cells, the cleaned record with its array and
  its two cleaned components, and returns a reference to the first of them. The object
  \<open>author\<close>, which the schema does not declare, is shared with the input.
\<close>

lemma example_heap_run:
  "contentManagementUtilRemoveFieldsFromDataH primitiveKey 2 (HRef 0) (HRef 5) (HRef 9) None
     exampleHeap =
   (Inr (HRef 11),
    exampleHeap @
     [HObject [(''title'', HStr ''Hi''), (''author'', HRef 1), (''images'', HRef 12),
               (''seo'', HRef 14)],
      HArray [HRef 13],
      HObject [(''url'', HStr ''a'')],
      HObject [(''metaTitle'', HStr ''M'')]])"
  by code_simp

text \<open>
  C9. A call of the sanitizer leaves the input record, the schemas and the component table
  unchanged: every cell of the heap before the call is in the heap after it with the same
  content, whether the call returns or throws. All the call does to the heap is to append
  cells and to write to cells it has appended.
\<close>

theorem input_unchanged:
  "\<exists>new. snd (contentManagementUtilRemoveFieldsFromDataH toKey depth data contentTypeSchema
      componentSchema fields h) = h @ new"
proof -
  have "prefix h (snd (recursiveCleanDataH toKey componentSchema
      (case fields of None \<Rightarrow> defaultFields | Some fs \<Rightarrow> fs) depth data contentTypeSchema h))"
    by (rule recursiveCleanDataH_frame)
  then show ?thesis
    by (auto simp: contentManagementUtilRemoveFieldsFromDataH_def prefix_def)
qed

section \<open>The run on the heap computes the record of the run on trees\<close>

text \<open>
  Reading is stable under allocation and under writes to addresses outside the set read,
  and every helper of the heap embedding reads as its counterpart on trees. The callback of
  \<open>reduce\<close> keeps the invariant of the accumulator (it is the object at the first fresh
  address, and it reads as the accumulator on trees), so that a run on the heap and the run
  on trees raise the same exception or return the same record.
\<close>

inductive_cases repr_HUndefinedE: "repr A h HUndefined x"
inductive_cases repr_HNullE: "repr A h HNull x"
inductive_cases repr_HBoolE: "repr A h (HBool b) x"
inductive_cases repr_HNumE: "repr A h (HNum n) x"
inductive_cases repr_HStrE: "repr A h (HStr s) x"
inductive_cases repr_HRefE: "repr A h (HRef a) x"
inductive_cases repr_JUndefinedE: "repr A h v JUndefined"
inductive_cases repr_JStrE: "repr A h v (JStr s)"
inductive_cases repr_JArrE: "repr A h v (JArr xs)"
inductive_cases repr_JObjE: "repr A h v (JObj kvs)"

lemma repr_frame:
  assumes "repr A h v x"
    and "\<And>a. a \<in> A \<Longrightarrow> a < length h \<Longrightarrow> a < length h' \<and> h' ! a = h ! a"
  shows "repr A h' v x"
  using assms(1)
proof (induction rule: repr.induct)
  case (repr_array a vs xs)
  from repr_array.hyps(1,2) assms(2) have "a < length h'" "h' ! a = HArray vs"
    using repr_array.hyps(3) by auto
  moreover from repr_array.IH have "list_all2 (repr A h') vs xs"
    by (rule list_all2_mono) simp
  ultimately show ?case using repr_array.hyps(1) by (intro repr.repr_array)
next
  case (repr_object a hkvs kvs)
  from repr_object.hyps(1,2) assms(2) have "a < length h'" "h' ! a = HObject hkvs"
    using repr_object.hyps(3) by auto
  moreover from repr_object.IH
  have "list_all2 (\<lambda>p q. fst p = fst q \<and> repr A h' (snd p) (snd q)) hkvs kvs"
    by (rule list_all2_mono) simp
  ultimately show ?case using repr_object.hyps(1) by (intro repr.repr_object)
qed (auto intro: repr.intros)

lemma repr_mono:
  assumes "repr A h v x" and "A \<subseteq> B"
  shows "repr B h v x"
  using assms(1)
proof (induction rule: repr.induct)
  case (repr_array a vs xs)
  from repr_array.IH have "list_all2 (repr B h) vs xs"
    by (rule list_all2_mono) simp
  with repr_array.hyps assms(2) show ?case by (intro repr.repr_array) auto
next
  case (repr_object a hkvs kvs)
  from repr_object.IH
  have "list_all2 (\<lambda>p q. fst p = fst q \<and> repr B h (snd p) (snd q)) hkvs kvs"
    by (rule list_all2_mono) simp
  with repr_object.hyps assms(2) show ?case by (intro repr.repr_object) auto
qed (auto intro: repr.intros)

lemma repr_truthy: "repr A h v x \<Longrightarrow> truthyH v = truthy x"
  by (induction rule: repr.induct) simp_all

lemma repr_nullish: "repr A h v x \<Longrightarrow> nullishH v = nullish x"
  by (induction rule: repr.induct) simp_all

lemma repr_isArray: "repr A h v x \<Longrightarrow> isArrayH h v = isArray x"
  by (induction rule: repr.induct) (simp_all add: cell_def)

lemma repr_elements: "repr A h v x \<Longrightarrow> list_all2 (repr A h) (elementsH h v) (elements x)"
proof (induction rule: repr.induct)
  case (repr_array a vs xs)
  from repr_array.IH have "list_all2 (repr A h) vs xs" by (rule list_all2_mono) simp
  with repr_array.hyps show ?case by (simp add: cell_def)
qed (simp_all add: cell_def)

lemma fieldsRel_indexed:
  assumes "list_all2 (repr A h) vs xs"
  shows "fieldsRel A h (indexedH vs) (indexed xs)"
proof -
  from assms have len: "length vs = length xs" by (rule list_all2_lengthD)
  show ?thesis
    unfolding fieldsRel_def indexedH_def indexed_def
    using assms len by (auto simp: list_all2_conv_all_nth)
qed

lemma repr_own_entries:
  assumes "repr A h v x"
  shows "rel_option (fieldsRel A h) (own_entriesH h v) (own_entries x)"
  using assms
proof (induction rule: repr.induct)
  case (repr_str s)
  have "list_all2 (repr A h) (map (\<lambda>c. HStr [c]) s) (map (\<lambda>c. JStr [c]) s)"
    by (simp add: list_all2_conv_all_nth repr.repr_str)
  then show ?case by (simp add: fieldsRel_indexed)
next
  case (repr_array a vs xs)
  from repr_array.IH have "list_all2 (repr A h) vs xs" by (rule list_all2_mono) simp
  with repr_array.hyps show ?case by (simp add: cell_def fieldsRel_indexed)
next
  case (repr_object a hkvs kvs)
  from repr_object.IH
  have "list_all2 (\<lambda>p q. fst p = fst q \<and> repr A h (snd p) (snd q)) hkvs kvs"
    by (rule list_all2_mono) simp
  with repr_object.hyps show ?case by (simp add: cell_def fieldsRel_def)
qed (simp_all add: fieldsRel_def)

lemma fieldsRel_map_of:
  "fieldsRel A h hkvs kvs \<Longrightarrow> rel_option (repr A h) (map_of hkvs k) (map_of kvs k)"
  unfolding fieldsRel_def
  by (induction hkvs kvs rule: list_all2_induct) auto

lemma fieldsRel_keys: "fieldsRel A h hkvs kvs \<Longrightarrow> map fst hkvs = map fst kvs"
  unfolding fieldsRel_def
  by (induction hkvs kvs rule: list_all2_induct) auto

lemma repr_length:
  assumes "repr A h v x"
  shows "repr A h
     (case v of
        HStr s \<Rightarrow> HNum (int (length s))
      | HRef a \<Rightarrow> (case cell h a of HArray xs \<Rightarrow> HNum (int (length xs))
                    | HObject kvs \<Rightarrow> HUndefined)
      | _ \<Rightarrow> HUndefined)
     (case x of
        JArr xs \<Rightarrow> JNum (int (length xs))
      | JStr s \<Rightarrow> JNum (int (length s))
      | _ \<Rightarrow> JUndefined)"
  using assms
proof (cases rule: repr.cases)
  case (repr_array a vs xs)
  from repr_array(6) have "length vs = length xs" by (rule list_all2_lengthD)
  with repr_array show ?thesis by (simp add: cell_def repr.repr_num)
qed (auto simp: cell_def intro: repr.intros)

lemma repr_getProp:
  assumes "repr A h v x"
  shows "repr A h (getPropH h v k) (getProp x k)"
proof -
  from repr_own_entries [OF assms]
  consider (none) "own_entriesH h v = None" "own_entries x = None"
    | (some) hkvs kvs where "own_entriesH h v = Some hkvs" "own_entries x = Some kvs"
        "fieldsRel A h hkvs kvs"
    by (auto simp: option_rel_Some1 elim: option.rel_cases)
  then show ?thesis
  proof cases
    case none
    then show ?thesis by (simp add: getPropH_def getProp_def repr.repr_undefined)
  next
    case some
    from fieldsRel_map_of [OF some(3), of k]
    consider (absent) "map_of hkvs k = None" "map_of kvs k = None"
      | (present) w y where "map_of hkvs k = Some w" "map_of kvs k = Some y" "repr A h w y"
      by (auto elim: option.rel_cases)
    then show ?thesis
    proof cases
      case absent
      with some repr_length [OF assms] show ?thesis
        by (simp add: getPropH_def getProp_def repr.repr_undefined)
    next
      case present
      with some show ?thesis by (simp add: getPropH_def getProp_def)
    qed
  qed
qed

lemma repr_baseGet:
  "repr A h v x \<Longrightarrow> repr A h (baseGetH h v path) (baseGet x path)"
proof (induction path arbitrary: v x)
  case Nil
  then show ?case by simp
next
  case (Cons k path)
  from Cons.prems have "nullishH v = nullish x" by (rule repr_nullish)
  with Cons.IH [OF repr_getProp [OF Cons.prems, of k]] show ?case
    by (simp add: repr.repr_undefined)
qed

lemma repr_get: "repr A h v x \<Longrightarrow> repr A h (getH h v path) (get x path)"
  by (simp add: getH_def get_def repr_baseGet repr.repr_undefined)

lemma repr_HUndefined_iff: "repr A h v JUndefined \<longleftrightarrow> v = HUndefined"
  by (auto elim: repr_JUndefinedE intro: repr.intros)

lemma repr_JStr_iff: "repr A h v (JStr s) \<longleftrightarrow> v = HStr s"
  by (auto elim: repr_JStrE intro: repr.intros)

lemma repr_HStr_iff: "repr A h (HStr s) x \<longleftrightarrow> x = JStr s"
  by (auto elim: repr_HStrE intro: repr.intros)

lemma repr_HUndefined_left: "repr A h HUndefined x \<longleftrightarrow> x = JUndefined"
  by (auto elim: repr_HUndefinedE intro: repr.intros)

lemma repr_getOr:
  assumes "repr A h v x" and "repr A h d dx"
  shows "repr A h (getOrH h v path d) (getOr x path dx)"
proof -
  from repr_get [OF assms(1), of path]
  have r: "repr A h (getH h v path) (get x path)" .
  then have "getH h v path = HUndefined \<longleftrightarrow> get x path = JUndefined"
    by (auto simp: repr_HUndefined_iff repr_HUndefined_left)
  with r assms(2) show ?thesis by (simp add: getOrH_def getOr_def Let_def)
qed

lemma repr_getType: "repr A h v x \<Longrightarrow> repr A h (getTypeH h v k) (getType x k)"
  by (simp add: getTypeH_def getType_def repr_getOr repr.repr_str)

lemma repr_getOtherInfos:
  "repr A h v x \<Longrightarrow> repr A h (getOtherInfosH h v arr) (getOtherInfos x arr)"
  by (simp add: getOtherInfosH_def getOtherInfos_def repr_getOr repr.repr_str)

lemma repr_prefix:
  assumes "repr A h v x" and "prefix h h'"
  shows "repr A h' v x"
proof (rule repr_frame [OF assms(1)])
  fix a assume "a \<in> A" "a < length h"
  from assms(2) obtain zs where "h' = h @ zs" by (auto simp: prefix_def)
  with \<open>a < length h\<close> show "a < length h' \<and> h' ! a = h ! a" by (simp add: nth_append)
qed

lemma repr_update_other:
  assumes "repr A h v x" and "a \<notin> A"
  shows "repr A (h[a := obj]) v x"
proof (rule repr_frame [OF assms(1)])
  fix b assume "b \<in> A" "b < length h"
  with assms(2) have "a \<noteq> b" by auto
  with \<open>b < length h\<close> show "b < length (h[a := obj]) \<and> h[a := obj] ! b = h ! b" by simp
qed

lemma fieldsRel_lift:
  assumes "fieldsRel A h hkvs kvs" and "\<And>v x. repr A h v x \<Longrightarrow> repr B h' v x"
  shows "fieldsRel B h' hkvs kvs"
  using assms unfolding fieldsRel_def
  by (auto elim!: list_all2_mono)

lemma fieldsRel_delete:
  "fieldsRel A h hacc acc \<Longrightarrow> fieldsRel A h (AList.delete k hacc) (AList.delete k acc)"
  unfolding fieldsRel_def
  by (induction hacc acc rule: list_all2_induct) (auto simp: AList.delete_eq)

lemma fieldsRel_update:
  "fieldsRel A h hacc acc \<Longrightarrow> repr A h v r \<Longrightarrow>
   fieldsRel A h (AList.update k v hacc) (AList.update k r acc)"
  unfolding fieldsRel_def
  by (induction hacc acc rule: list_all2_induct) auto

lemma excluded_agree:
  assumes "list_all2 (repr A h) tsH ts"
  shows "HStr c \<in> set (map HStr fs @ tsH) \<longleftrightarrow> JStr c \<in> set (map JStr fs @ ts)"
proof -
  from assms have "HStr c \<in> set tsH \<longleftrightarrow> JStr c \<in> set ts"
    by (induction tsH ts rule: list_all2_induct) (auto simp: repr_JStr_iff repr_HStr_iff)
  then show ?thesis by auto
qed

lemma timestamps_agree:
  assumes "repr A h SH S"
  shows "list_all2 (repr A h)
     (if isArrayH h (getH h SH [''options'', ''timestamps''])
      then elementsH h (getH h SH [''options'', ''timestamps'']) else [])
     (case get S [''options'', ''timestamps''] of JArr ts \<Rightarrow> ts | _ \<Rightarrow> [])"
proof -
  let ?tH = "getH h SH [''options'', ''timestamps'']"
  let ?t = "get S [''options'', ''timestamps'']"
  have r: "repr A h ?tH ?t" using assms by (rule repr_get)
  from repr_isArray [OF r] repr_elements [OF r] show ?thesis
    by (cases ?t) simp_all
qed

lemma getIndex_agree:
  assumes agree: "\<And>A h v x. repr A h v x \<Longrightarrow> toKey h v = toString x"
    and "repr A h CH C" and "repr B h d dx"
  shows "rel_sum (=) (repr A h) (getIndexH toKey h CH d) (getIndex C dx)"
proof -
  from assms(2) have n: "nullishH CH = nullish C" by (rule repr_nullish)
  from agree [OF assms(3)] have k: "toKey h d = toString dx" .
  show ?thesis
  proof (cases "toString dx")
    case (Inl e)
    with n k show ?thesis by (simp add: getIndexH_def getIndex_def)
  next
    case (Inr key)
    with n k repr_getProp [OF assms(2), of key] show ?thesis
      by (simp add: getIndexH_def getIndex_def)
  qed
qed

lemma getMember_agree:
  assumes "repr A h v x"
  shows "rel_sum (=) (repr A h) (getMemberH h v name) (getMember x name)"
  using repr_nullish [OF assms] repr_getProp [OF assms, of name]
  by (simp add: getMemberH_def getMember_def)

lemma fresh_mono: "L \<le> L' \<Longrightarrow> fresh N L' \<subseteq> fresh N L"
  by (auto simp: fresh_def)

lemma inputs_fresh: "inputs N \<subseteq> fresh N L"
  by (auto simp: inputs_def fresh_def)

lemma prefix_length: "prefix (xs :: 'a list) ys \<Longrightarrow> length xs \<le> length ys"
  by (auto simp: prefix_def)

lemma mapH_sim:
  fixes fH :: "hval \<Rightarrow> heap \<Rightarrow> (error + hval) \<times> heap" and f :: "jsval \<Rightarrow> error + jsval"
  assumes f: "\<And>hx x h'. prefix h0 h' \<Longrightarrow> repr (inputs N) h0 hx x \<Longrightarrow> sim N h' (fH hx h') (f x)"
    and elems: "list_all2 (repr (inputs N) h0) hxs xs"
    and start: "prefix h0 h"
  shows "mapSim N h (mapH fH hxs h) (mapE f xs)"
  using elems start
proof (induction hxs xs arbitrary: h rule: list_all2_induct)
  case Nil
  show ?case by (simp add: mapSim_def)
next
  case (Cons hx hxs x xs)
  obtain out1 h1 where run1: "fH hx h = (out1, h1)" by (cases "fH hx h")
  from f [OF Cons.prems Cons.hyps(1)] run1 have s1: "sim N h (out1, h1) (f x)" by simp
  then have p1: "prefix h h1" by (simp add: sim_def)
  show ?case
  proof (cases "f x")
    case (Inl e)
    with s1 have "out1 = Inl e" by (simp add: sim_def)
    with run1 p1 Inl show ?thesis by (simp add: mapSim_def)
  next
    case (Inr r)
    with s1 obtain v where v: "out1 = Inr v" and rv: "repr (fresh N (length h)) h1 v r"
      by (auto simp: sim_def)
    obtain outs h2 where run2: "mapH fH hxs h1 = (outs, h2)" by (cases "mapH fH hxs h1")
    from Cons.prems p1 have "prefix h0 h1" by (rule prefix_order.trans)
    from Cons.IH [OF this] run2 have ms: "mapSim N h1 (outs, h2) (mapE f xs)" by simp
    then have p2: "prefix h1 h2" by (simp add: mapSim_def)
    from p1 p2 have p: "prefix h h2" by (rule prefix_order.trans)
    show ?thesis
    proof (cases "mapE f xs")
      case (Inl e)
      with ms have "outs = Inl e" by (simp add: mapSim_def)
      with run1 run2 v p Inr Inl show ?thesis by (simp add: mapSim_def)
    next
      case (Inr rs)
      with ms obtain vs where vs: "outs = Inr vs"
        and rvs: "list_all2 (repr (fresh N (length h1)) h2) vs rs" by (auto simp: mapSim_def)
      from rv p2 have "repr (fresh N (length h)) h2 v r" by (rule repr_prefix)
      moreover from rvs have "list_all2 (repr (fresh N (length h)) h2) vs rs"
        by (rule list_all2_mono) (rule repr_mono, assumption, rule fresh_mono, rule prefix_length, rule p1)
      ultimately show ?thesis
        using run1 run2 v vs p \<open>f x = Inr r\<close> Inr by (simp add: mapSim_def)
    qed
  qed
qed

lemma arrayMapH_sim:
  fixes fH :: "hval \<Rightarrow> heap \<Rightarrow> (error + hval) \<times> heap" and f :: "jsval \<Rightarrow> error + jsval"
  assumes f: "\<And>hx x h'. prefix h0 h' \<Longrightarrow> repr (inputs N) h0 hx x \<Longrightarrow> sim N h' (fH hx h') (f x)"
    and elems: "list_all2 (repr (inputs N) h0) hxs xs"
    and start: "prefix h0 h" and N: "N \<le> length h0"
  shows "sim N h (arrayMapH fH hxs h) (case mapE f xs of Inl e \<Rightarrow> Inl e | Inr rs \<Rightarrow> Inr (JArr rs))"
proof -
  let ?h1 = "h @ [HArray []]"
  obtain outs h2 where run: "mapH fH hxs ?h1 = (outs, h2)" by (cases "mapH fH hxs ?h1")
  have p01: "prefix h0 ?h1"
    using start prefix_order.trans [of h0 h ?h1] by simp
  from mapH_sim [of h0 N fH f hxs xs ?h1, OF f elems p01] run
  have ms: "mapSim N ?h1 (outs, h2) (mapE f xs)" by simp
  then have p12: "prefix ?h1 h2" by (simp add: mapSim_def)
  have ph1: "prefix h ?h1" by simp
  from ph1 p12 have p: "prefix h h2" by (rule prefix_order.trans)
  from prefix_length [OF p12] have len: "length h < length h2" by simp
  show ?thesis
  proof (cases "mapE f xs")
    case (Inl e)
    with ms have "outs = Inl e" by (simp add: mapSim_def)
    with run p Inl show ?thesis by (simp add: arrayMapH_def alloc_def sim_def)
  next
    case (Inr rs)
    with ms obtain vs where vs: "outs = Inr vs"
      and rvs: "list_all2 (repr (fresh N (Suc (length h))) h2) vs rs"
      by (auto simp: mapSim_def)
    let ?h3 = "h2[length h := HArray vs]"
    from start N have "N \<le> length h" using prefix_length [OF start] by simp
    then have notin: "length h \<notin> fresh N (Suc (length h))" by (simp add: fresh_def)
    have "list_all2 (repr (fresh N (length h)) ?h3) vs rs"
      using rvs
    proof (rule list_all2_mono)
      fix v r assume "repr (fresh N (Suc (length h))) h2 v r"
      then have "repr (fresh N (Suc (length h))) ?h3 v r" using notin by (rule repr_update_other)
      then show "repr (fresh N (length h)) ?h3 v r"
        by (rule repr_mono) (simp add: fresh_mono)
    qed
    with len have "repr (fresh N (length h)) ?h3 (HRef (length h)) (JArr rs)"
      by (intro repr.repr_array [where vs = vs]) (simp_all add: fresh_def)
    moreover have "prefix h ?h3" using p by (rule prefix_update) simp
    ultimately show ?thesis using run vs Inr by (simp add: arrayMapH_def alloc_def sim_def)
  qed
qed

lemma accInv_write:
  assumes inv: "accInv N h0 h acc" and N: "N \<le> length h0"
    and p: "prefix h h'"
    and rel: "\<And>hacc. h ! length h0 = HObject hacc \<Longrightarrow>
        fieldsRel (fresh N (Suc (length h0))) h' hacc acc \<Longrightarrow>
        fieldsRel (fresh N (Suc (length h0))) h' (g hacc) acc'"
  shows "accInv N h0 (h'[length h0 := HObject (g (case h' ! length h0 of HObject kvs \<Rightarrow> kvs))]) acc'"
proof -
  let ?L = "length h0"
  let ?F = "fresh N (Suc ?L)"
  from inv obtain hacc where p0: "prefix h0 h" and len: "?L < length h"
    and cell: "h ! ?L = HObject hacc" and fr: "fieldsRel ?F h hacc acc"
    by (auto simp: accInv_def)
  from p obtain zs where h': "h' = h @ zs" by (auto simp: prefix_def)
  with len cell have cell': "h' ! ?L = HObject hacc" by (simp add: nth_append)
  from h' len have len': "?L < length h'" by simp
  from fr have "fieldsRel ?F h' hacc acc"
    by (rule fieldsRel_lift) (rule repr_prefix, assumption, rule p)
  from rel [OF cell this] have g: "fieldsRel ?F h' (g hacc) acc'" .
  from N have notin: "?L \<notin> ?F" by (simp add: fresh_def)
  let ?h'' = "h'[?L := HObject (g hacc)]"
  from g have "fieldsRel ?F ?h'' (g hacc) acc'"
    by (rule fieldsRel_lift) (rule repr_update_other, assumption, rule notin)
  moreover from p0 p have "prefix h0 h'" by (rule prefix_order.trans)
  then have "prefix h0 ?h''" by (rule prefix_update) simp
  ultimately show ?thesis using len' cell' by (simp add: accInv_def)
qed

lemma deleteH_inv:
  assumes inv: "accInv N h0 h acc" and N: "N \<le> length h0"
  shows "accInv N h0 (deleteH h (length h0) current) (AList.delete current acc)"
proof -
  from inv obtain hacc where len: "length h0 < length h" and cell: "h ! length h0 = HObject hacc"
    by (auto simp: accInv_def)
  have "accInv N h0 (h[length h0 := HObject (AList.delete current
      (case h ! length h0 of HObject kvs \<Rightarrow> kvs))]) (AList.delete current acc)"
    using inv N by (rule accInv_write) (simp_all add: fieldsRel_delete)
  with len cell show ?thesis by (simp add: deleteH_def cell_def)
qed

lemma assignH_inv:
  assumes inv: "accInv N h0 h acc" and N: "N \<le> length h0"
    and p: "prefix h h'" and rv: "repr (fresh N (length h)) h' v r"
  shows "accInv N h0 (assignH h' (length h0) current v) (AList.update current r acc)"
proof -
  from inv obtain hacc where len: "length h0 < length h" and cell: "h ! length h0 = HObject hacc"
    by (auto simp: accInv_def)
  from p obtain zs where h': "h' = h @ zs" by (auto simp: prefix_def)
  with len cell have cell': "h' ! length h0 = HObject hacc" and len': "length h0 < length h'"
    by (simp_all add: nth_append)
  from rv have rv': "repr (fresh N (Suc (length h0))) h' v r"
  proof (rule repr_mono)
    from len show "fresh N (length h) \<subseteq> fresh N (Suc (length h0))"
      by (intro fresh_mono) simp
  qed
  have "accInv N h0 (h'[length h0 := HObject (AList.update current v
      (case h' ! length h0 of HObject kvs \<Rightarrow> kvs))]) (AList.update current r acc)"
    using inv N p by (rule accInv_write) (simp add: fieldsRel_update rv')
  with len' cell' show ?thesis by (simp add: assignH_def cell_def)
qed

lemma branch_sim:
  assumes inv: "accInv N h0 h acc" and N: "N \<le> length h0"
    and s: "sim N h outH res"
  shows "stepSim N h0
     (case outH of
        (Inl e, h') \<Rightarrow> (Inl e, h')
      | (Inr cleaned, h') \<Rightarrow> (Inr (length h0), assignH h' (length h0) current cleaned))
     (bindE res (\<lambda>cleaned. Inr (AList.update current cleaned acc)))"
proof -
  obtain outv h' where outH: "outH = (outv, h')" by (cases outH)
  from s outH have p: "prefix h h'" by (simp add: sim_def)
  from inv have p0: "prefix h0 h" by (simp add: accInv_def)
  show ?thesis
  proof (cases res)
    case (Inl e)
    with s outH have "outv = Inl e" by (simp add: sim_def)
    moreover from p0 p have "prefix h0 h'" by (rule prefix_order.trans)
    ultimately show ?thesis using outH Inl by (simp add: stepSim_def)
  next
    case (Inr r)
    with s outH obtain v where v: "outv = Inr v" and rv: "repr (fresh N (length h)) h' v r"
      by (auto simp: sim_def)
    from assignH_inv [OF inv N p rv] v outH Inr show ?thesis by (simp add: stepSim_def)
  qed
qed

lemma rel_sum_cases:
  assumes "rel_sum (=) R a b"
  obtains (Left) e where "a = Inl e" "b = Inl e"
    | (Right) v r where "a = Inr v" "b = Inr r" "R v r"
  using assms by (auto elim: rel_sum.cases)

lemma cleanFieldH_cases:
  "cleanFieldH rcd toKey C fs data S acc current h =
     (if HStr current \<in> set (effectiveExclusionsH h fs S) then (Inr acc, deleteH h acc current)
      else if \<not> truthyH (getH h data [current]) then (Inr acc, h)
      else if getTypeH h S current = HStr ''dynamiczone'' \<and> isArrayH h (getH h data [current]) then
        storeH acc current
          (arrayMapH (cleanEntryH rcd toKey C) (elementsH h (getH h data [current])) h)
      else if getTypeH h S current = HStr ''component'' then
        (if truthyH (getOtherInfosH h S [current, ''repeatable'']) \<and>
            isArrayH h (getH h data [current]) then
           storeH acc current
             (arrayMapH (cleanCompoH rcd toKey C (getOtherInfosH h S [current, ''component'']))
                (elementsH h (getH h data [current])) h)
         else
           storeH acc current
             (cleanCompoH rcd toKey C (getOtherInfosH h S [current, ''component''])
                (getH h data [current]) h))
      else (Inr acc, h))"
proof -
  have single: "(case getIndexH toKey h C c of
        Inl e \<Rightarrow> (Inl e, h)
      | Inr sub \<Rightarrow>
          (case rcd v sub h of
             (Inl e, h') \<Rightarrow> (Inl e, h')
           | (Inr cleaned, h') \<Rightarrow> (Inr acc, assignH h' acc current cleaned))) =
      storeH acc current (cleanCompoH rcd toKey C c v h)" for c v
    by (cases "getIndexH toKey h C c") (simp_all add: storeH_def cleanCompoH_def)
  have entryEq: "(\<lambda>componentValue h.
                   case getMemberH h componentValue ''__component'' of
                     Inl e \<Rightarrow> (Inl e, h)
                   | Inr discriminator \<Rightarrow>
                       (case getIndexH toKey h C discriminator of
                          Inl e \<Rightarrow> (Inl e, h)
                        | Inr sub \<Rightarrow> rcd componentValue sub h)) = cleanEntryH rcd toKey C"
    by (intro ext) (simp add: cleanEntryH_def)
  have compoEq: "(\<lambda>compoData h.
                      case getIndexH toKey h C c of
                        Inl e \<Rightarrow> (Inl e, h)
                      | Inr sub \<Rightarrow> rcd compoData sub h) = cleanCompoH rcd toKey C c" for c
    by (intro ext) (simp add: cleanCompoH_def)
  show ?thesis
    unfolding cleanFieldH_def Let_def single entryEq compoEq
    unfolding effectiveExclusionsH_def storeH_def
    by (rule refl)
qed

lemma cleanField_cases:
  "cleanField rcd C fs data S acc current =
     (if JStr current \<in> set (effectiveExclusions fs S) then Inr (AList.delete current acc)
      else if \<not> truthy (get data [current]) then Inr acc
      else if getType S current = JStr ''dynamiczone'' \<and> isArray (get data [current]) then
        store acc current (arrayOf (mapE (cleanEntry rcd C) (elements (get data [current]))))
      else if getType S current = JStr ''component'' then
        (if truthy (getOtherInfos S [current, ''repeatable'']) \<and> isArray (get data [current]) then
           store acc current
             (arrayOf (mapE (cleanCompo rcd C (getOtherInfos S [current, ''component'']))
                (elements (get data [current]))))
         else
           store acc current
             (cleanCompo rcd C (getOtherInfos S [current, ''component'']) (get data [current])))
      else Inr acc)"
proof -
  have arr: "store acc current (arrayOf m) =
      bindE m (\<lambda>cleaned. Inr (AList.update current (JArr cleaned) acc))" for m
    by (cases m) (simp_all add: store_def arrayOf_def)
  show ?thesis
    unfolding cleanField_action fieldAction_def arr
    by (simp add: store_def bindE_assoc)
qed

lemma stepSim_if:
  "(c \<Longrightarrow> stepSim N h0 a b) \<Longrightarrow> (\<not> c \<Longrightarrow> stepSim N h0 a' b') \<Longrightarrow>
   stepSim N h0 (if c then a else a') (if c then b else b')"
  by simp

lemma cleanFieldH_sim:
  assumes agree: "\<And>A h v x. repr A h v x \<Longrightarrow> toKey h v = toString x"
    and rec: "\<And>hx x' sH s h'. prefix h0 h' \<Longrightarrow> repr (inputs N) h' hx x' \<Longrightarrow>
        repr (inputs N) h' sH s \<Longrightarrow> sim N h' (rcdH hx sH h') (rcdP x' s)"
    and data: "repr (inputs N) h0 dataH x" and schema: "repr (inputs N) h0 SH S"
    and table: "repr (inputs N) h0 CH C" and N: "N \<le> length h0"
    and inv: "accInv N h0 h acc"
  shows "stepSim N h0 (cleanFieldH rcdH toKey CH fs dataH SH (length h0) current h)
     (cleanField rcdP C fs x S acc current)"
proof -
  let ?L = "length h0"
  from inv have p0: "prefix h0 h" by (simp add: accInv_def)
  note dataR = repr_prefix [OF data p0]
  note schemaR = repr_prefix [OF schema p0]
  note tableR = repr_prefix [OF table p0]
  let ?fieldH = "getH h dataH [current]" and ?field = "get x [current]"
  let ?typeH = "getTypeH h SH current" and ?type = "getType S current"
  let ?compH = "getOtherInfosH h SH [current, ''component'']"
  let ?comp = "getOtherInfos S [current, ''component'']"
  let ?repH = "getOtherInfosH h SH [current, ''repeatable'']"
  let ?rep = "getOtherInfos S [current, ''repeatable'']"
  have valueR: "repr (inputs N) h ?fieldH ?field" using dataR by (rule repr_get)
  have typeR: "repr (inputs N) h ?typeH ?type" using schemaR by (rule repr_getType)
  have compR: "repr (inputs N) h ?compH ?comp" using schemaR by (rule repr_getOtherInfos)
  have repR: "repr (inputs N) h ?repH ?rep" using schemaR by (rule repr_getOtherInfos)
  have c1: "HStr current \<in> set (effectiveExclusionsH h fs SH) \<longleftrightarrow>
      JStr current \<in> set (effectiveExclusions fs S)"
    unfolding effectiveExclusionsH_def effectiveExclusions_def
    using timestamps_agree [OF schemaR] by (rule excluded_agree)
  have c2: "truthyH ?fieldH = truthy ?field" using valueR by (rule repr_truthy)
  have c3: "truthyH ?repH = truthy ?rep" using repR by (rule repr_truthy)
  have c4: "isArrayH h ?fieldH = isArray ?field" using valueR by (rule repr_isArray)
  have c5: "?typeH = HStr ''dynamiczone'' \<longleftrightarrow> ?type = JStr ''dynamiczone''"
    using typeR by (auto simp: repr_JStr_iff repr_HStr_iff)
  have c6: "?typeH = HStr ''component'' \<longleftrightarrow> ?type = JStr ''component''"
    using typeR by (auto simp: repr_JStr_iff repr_HStr_iff)
  have elems: "list_all2 (repr (inputs N) h) (elementsH h ?fieldH) (elements ?field)"
    using valueR by (rule repr_elements)
  from p0 N have Nh: "N \<le> length h" using prefix_length [OF p0] by simp
  have rec': "sim N h' (rcdH hx sH h') (rcdP x' s)"
    if "prefix h h'" "repr (inputs N) h' hx x'" "repr (inputs N) h' sH s" for hx x' sH s h'
  proof (rule rec)
    from p0 that(1) show "prefix h0 h'" by (rule prefix_order.trans)
  qed (rule that)+
  have gi: "rel_sum (=) (repr (inputs N) h') (getIndexH toKey h' CH d) (getIndex C dx)"
    if "repr (inputs N) h' CH C" "repr (inputs N) h' d dx" for h' d dx
  proof (rule getIndex_agree [where toKey = toKey and B = "inputs N"])
    show "toKey h v = toString x" if "repr A h v x" for A h v x
      using that by (rule agree)
  qed (rule that)+
  have entrySim: "sim N h' (cleanEntryH rcdH toKey CH hx h') (cleanEntry rcdP C x')"
    if ph: "prefix h h'" and el: "repr (inputs N) h hx x'" for hx x' h'
  proof -
    from el ph have el': "repr (inputs N) h' hx x'" by (rule repr_prefix)
    from tableR ph have table': "repr (inputs N) h' CH C" by (rule repr_prefix)
    from getMember_agree [OF el', of "''__component''"] show ?thesis
    proof (cases rule: rel_sum_cases)
      case (Left e)
      then show ?thesis by (simp add: sim_def cleanEntryH_def cleanEntry_def)
    next
      case (Right d dx)
      from gi [OF table' Right(3)] show ?thesis
      proof (cases rule: rel_sum_cases)
        case (Left e)
        with Right show ?thesis by (simp add: sim_def cleanEntryH_def cleanEntry_def)
      next
        case inner: (Right sub subx)
        from rec' [OF ph el' inner(3)] Right inner show ?thesis
          by (simp add: cleanEntryH_def cleanEntry_def)
      qed
    qed
  qed
  have compoSim: "sim N h' (cleanCompoH rcdH toKey CH ?compH hx h') (cleanCompo rcdP C ?comp x')"
    if ph: "prefix h h'" and el: "repr (inputs N) h hx x'" for hx x' h'
  proof -
    from el ph have el': "repr (inputs N) h' hx x'" by (rule repr_prefix)
    from tableR ph have table': "repr (inputs N) h' CH C" by (rule repr_prefix)
    from compR ph have comp': "repr (inputs N) h' ?compH ?comp" by (rule repr_prefix)
    from gi [OF table' comp'] show ?thesis
    proof (cases rule: rel_sum_cases)
      case (Left e)
      then show ?thesis by (simp add: sim_def cleanCompoH_def cleanCompo_def)
    next
      case (Right sub subx)
      from rec' [OF ph el' Right(3)] Right show ?thesis
        by (simp add: cleanCompoH_def cleanCompo_def)
    qed
  qed
  have dzSim: "sim N h (arrayMapH (cleanEntryH rcdH toKey CH) (elementsH h ?fieldH) h)
      (arrayOf (mapE (cleanEntry rcdP C) (elements ?field)))"
    unfolding arrayOf_def
    by (rule arrayMapH_sim [where ?h0.0 = h]) (simp_all add: entrySim elems Nh)
  have repSim: "sim N h (arrayMapH (cleanCompoH rcdH toKey CH ?compH) (elementsH h ?fieldH) h)
      (arrayOf (mapE (cleanCompo rcdP C ?comp) (elements ?field)))"
    unfolding arrayOf_def
    by (rule arrayMapH_sim [where ?h0.0 = h]) (simp_all add: compoSim elems Nh)
  have singleSim: "sim N h (cleanCompoH rcdH toKey CH ?compH ?fieldH h)
      (cleanCompo rcdP C ?comp ?field)"
    by (rule compoSim) (simp_all add: valueR)
  have br: "stepSim N h0 (storeH ?L current outH) (store acc current res)"
    if "sim N h outH res" for outH res
    using branch_sim [OF inv N that, of current] by (simp add: storeH_def store_def)
  have keepSim: "stepSim N h0 (Inr ?L, h) (Inr acc)"
    using inv by (simp add: stepSim_def)
  have delSim: "stepSim N h0 (Inr ?L, deleteH h ?L current) (Inr (AList.delete current acc))"
    using deleteH_inv [OF inv N] by (simp add: stepSim_def)
  show ?thesis
    unfolding cleanFieldH_cases cleanField_cases c1 c2 c3 c4 c5 c6
    by (intro stepSim_if delSim keepSim br dzSim repSim singleSim)
qed

lemma reduceH_sim:
  assumes agree: "\<And>A h v x. repr A h v x \<Longrightarrow> toKey h v = toString x"
    and rec: "\<And>hx x' sH s h'. prefix h0 h' \<Longrightarrow> repr (inputs N) h' hx x' \<Longrightarrow>
        repr (inputs N) h' sH s \<Longrightarrow> sim N h' (rcdH hx sH h') (rcdP x' s)"
    and data: "repr (inputs N) h0 dataH x" and schema: "repr (inputs N) h0 SH S"
    and table: "repr (inputs N) h0 CH C" and N: "N \<le> length h0"
  shows "accInv N h0 h acc \<Longrightarrow>
     stepSim N h0 (reduceH (cleanFieldH rcdH toKey CH fs dataH SH) (length h0) ks h)
       (reduceE (cleanField rcdP C fs x S) acc ks)"
proof (induction ks arbitrary: h acc)
  case Nil
  then show ?case by (simp add: stepSim_def)
next
  case (Cons current ks)
  let ?outH = "cleanFieldH rcdH toKey CH fs dataH SH (length h0) current h"
  let ?res = "cleanField rcdP C fs x S acc current"
  have step: "stepSim N h0 ?outH ?res"
    using agree rec data schema table N Cons.prems by (rule cleanFieldH_sim)
  obtain o1 h1 where out: "?outH = (o1, h1)" by (cases ?outH)
  show ?case
  proof (cases ?res)
    case (Inl e)
    with step out show ?thesis by (simp add: stepSim_def)
  next
    case (Inr acc')
    with step out have "o1 = Inr (length h0)" and "accInv N h0 h1 acc'"
      by (simp_all add: stepSim_def)
    with Cons.IH [of h1 acc'] out Inr show ?thesis by simp
  qed
qed

lemma recursiveCleanDataH_sim:
  assumes agree: "\<And>A h v x. repr A h v x \<Longrightarrow> toKey h v = toString x"
  shows "N \<le> length h \<Longrightarrow> repr (inputs N) h dataH x \<Longrightarrow> repr (inputs N) h SH S \<Longrightarrow>
     repr (inputs N) h CH C \<Longrightarrow>
     sim N h (recursiveCleanDataH toKey CH fs n dataH SH h) (recursiveCleanData C fs n x S)"
proof (induction n arbitrary: h dataH x SH S)
  case 0
  show ?case by (simp add: sim_def)
next
  case (Suc n)
  let ?L = "length h"
  from repr_own_entries [OF Suc.prems(2)] show ?case
  proof (cases rule: option.rel_cases)
    case None
    then show ?thesis by (simp add: sim_def)
  next
    case (Some kvsH kvs)
    let ?h1 = "h @ [HObject kvsH]"
    have keys: "map fst kvsH = map fst kvs" using Some(3) by (rule fieldsRel_keys)
    have "fieldsRel (fresh N (Suc ?L)) ?h1 kvsH kvs"
      using Some(3)
    proof (rule fieldsRel_lift)
      fix v y assume "repr (inputs N) h v y"
      then have "repr (inputs N) ?h1 v y" by (rule repr_prefix) simp
      then show "repr (fresh N (Suc ?L)) ?h1 v y" by (rule repr_mono) (rule inputs_fresh)
    qed
    then have inv: "accInv N h ?h1 kvs" by (simp add: accInv_def)
    have rec: "sim N h' (recursiveCleanDataH toKey CH fs n hx sH h') (recursiveCleanData C fs n x' s)"
      if "prefix h h'" "repr (inputs N) h' hx x'" "repr (inputs N) h' sH s" for hx x' sH s h'
    proof (rule Suc.IH)
      from Suc.prems(1) prefix_length [OF that(1)] show "N \<le> length h'" by simp
      from Suc.prems(4) that(1) show "repr (inputs N) h' CH C" by (rule repr_prefix)
    qed (rule that)+
    let ?outH = "reduceH (cleanFieldH (recursiveCleanDataH toKey CH fs n) toKey CH fs dataH SH)
        ?L (map fst kvs) ?h1"
    let ?res = "reduceE (cleanField (recursiveCleanData C fs n) C fs x S) kvs (map fst kvs)"
    have red: "stepSim N h ?outH ?res"
      using agree rec Suc.prems(2,3,4,1) inv by (rule reduceH_sim)
    obtain o1 h2 where out: "?outH = (o1, h2)" by (cases ?outH)
    show ?thesis
    proof (cases ?res)
      case (Inl e)
      with red out have "o1 = Inl e" "prefix h h2" by (simp_all add: stepSim_def)
      with Some out Inl keys show ?thesis by (simp add: sim_def alloc_def)
    next
      case (Inr acc')
      with red out have o1: "o1 = Inr ?L" and inv': "accInv N h h2 acc'"
        by (simp_all add: stepSim_def)
      from inv' obtain hacc where p: "prefix h h2" and len: "?L < length h2"
        and cell: "h2 ! ?L = HObject hacc"
        and fr: "fieldsRel (fresh N (Suc ?L)) h2 hacc acc'"
        by (auto simp: accInv_def)
      from fr have "fieldsRel (fresh N ?L) h2 hacc acc'"
        by (rule fieldsRel_lift) (rule repr_mono, assumption, rule fresh_mono, simp)
      with len cell have "repr (fresh N ?L) h2 (HRef ?L) (JObj acc')"
        by (intro repr.repr_object [where hkvs = hacc]) (simp_all add: fresh_def fieldsRel_def)
      with Some out Inr keys o1 p show ?thesis by (simp add: sim_def alloc_def)
    qed
  qed
qed

lemma repr_unique:
  assumes "repr A h v x" and "repr B h v y"
  shows "x = y"
  using assms
proof (induction arbitrary: y rule: repr.induct)
  case (repr_array a vs xs)
  from repr_array.prems repr_array.hyps(3) obtain ys where y: "y = JArr ys"
    and ys: "list_all2 (repr B h) vs ys"
    by (auto elim: repr_HRefE)
  from repr_array.IH ys have "xs = ys"
  proof (induction vs xs arbitrary: ys rule: list_all2_induct)
    case Nil
    then show ?case by simp
  next
    case (Cons v vs x xs)
    from Cons.prems obtain y' ys' where "ys = y' # ys'" "repr B h v y'" "list_all2 (repr B h) vs ys'"
      by (auto simp: list_all2_Cons1)
    with Cons.hyps(1) Cons.IH [of ys'] show ?case by auto
  qed
  with y show ?case by simp
next
  case (repr_object a hkvs kvs)
  from repr_object.prems repr_object.hyps(3) obtain kvs' where y: "y = JObj kvs'"
    and ys: "list_all2 (\<lambda>p q. fst p = fst q \<and> repr B h (snd p) (snd q)) hkvs kvs'"
    by (auto elim: repr_HRefE)
  from repr_object.IH ys have "kvs = kvs'"
  proof (induction hkvs kvs arbitrary: kvs' rule: list_all2_induct)
    case Nil
    then show ?case by simp
  next
    case (Cons p hkvs q kvs)
    from Cons.prems obtain q' qs' where "kvs' = q' # qs'" "fst p = fst q'" "repr B h (snd p) (snd q')"
      "list_all2 (\<lambda>p q. fst p = fst q \<and> repr B h (snd p) (snd q)) hkvs qs'"
      by (auto simp: list_all2_Cons1)
    with Cons.hyps(1) Cons.IH [of qs'] show ?case by (auto simp: prod_eq_iff)
  qed
  with y show ?case by simp
qed (auto elim: repr_HUndefinedE repr_HNullE repr_HBoolE repr_HNumE repr_HStrE)

lemma toKeyOf_agrees:
  assumes "repr A h v x"
  shows "toKeyOf h v = toString x"
proof -
  from assms have r: "repr UNIV h v x" by (rule repr_mono) simp
  then have "(THE y. repr UNIV h v y) = x"
    by (intro the_equality) (auto dest: repr_unique [OF r])
  with r show ?thesis by (auto simp: toKeyOf_def)
qed

lemma heap_run_refines:
  assumes "N \<le> length h" and "repr (inputs N) h dataH x" and "repr (inputs N) h SH S"
    and "repr (inputs N) h CH C"
  shows "sim N h (contentManagementUtilRemoveFieldsFromDataH toKeyOf n dataH SH CH fields h)
     (contentManagementUtilRemoveFieldsFromData n x S C fields)"
  unfolding contentManagementUtilRemoveFieldsFromDataH_def contentManagementUtilRemoveFieldsFromData_def
  using toKeyOf_agrees assms by (rule recursiveCleanDataH_sim)

text \<open>
  The example heap reads as an entry, a schema and a table of the first embedding, and the
  run on it returns a reference that reads as the record the run on trees returns.
\<close>

lemma repr_HRef_iff:
  "repr A h (HRef a) x \<longleftrightarrow>
     a \<in> A \<and> a < length h \<and>
     (case h ! a of
        HArray vs \<Rightarrow> (case x of JArr xs \<Rightarrow> list_all2 (repr A h) vs xs | _ \<Rightarrow> False)
      | HObject hkvs \<Rightarrow>
          (case x of
             JObj kvs \<Rightarrow> list_all2 (\<lambda>p q. fst p = fst q \<and> repr A h (snd p) (snd q)) hkvs kvs
           | _ \<Rightarrow> False))"
  by (auto elim!: repr_HRefE intro: repr.intros split: hobj.splits jsval.splits)

lemma example_entry_read:
  "repr (inputs 11) exampleHeap (HRef 0)
     (JObj [(''id'', JNum 7), (''title'', JStr ''Hi''),
            (''author'', JObj [(''id'', JNum 9), (''name'', JStr ''A'')]),
            (''images'', JArr [JObj [(''id'', JNum 1), (''url'', JStr ''a'')]]),
            (''seo'', JObj [(''id'', JNum 3), (''metaTitle'', JStr ''M'')])])"
  by (simp add: repr_HRef_iff repr.intros exampleHeap_def inputs_def)

lemma example_schema_read:
  "repr (inputs 11) exampleHeap (HRef 5)
     (JObj [(''attributes'', JObj
        [(''images'', JObj [(''type'', JStr ''component''), (''component'', JStr ''img''),
                            (''repeatable'', JBool True)]),
         (''seo'', JObj [(''type'', JStr ''component''), (''component'', JStr ''meta'')])])])"
  by (simp add: repr_HRef_iff repr.intros exampleHeap_def inputs_def)

lemma example_table_read:
  "repr (inputs 11) exampleHeap (HRef 9) (JObj [(''img'', JObj [])])"
  by (simp add: repr_HRef_iff repr.intros exampleHeap_def inputs_def)

lemma example_heap_refines:
  "sim 11 exampleHeap
     (contentManagementUtilRemoveFieldsFromDataH toKeyOf 2 (HRef 0) (HRef 5) (HRef 9) None
        exampleHeap)
     (Inr (JObj [(''title'', JStr ''Hi''),
                 (''author'', JObj [(''id'', JNum 9), (''name'', JStr ''A'')]),
                 (''images'', JArr [JObj [(''url'', JStr ''a'')]]),
                 (''seo'', JObj [(''metaTitle'', JStr ''M'')])]))"
proof -
  have "contentManagementUtilRemoveFieldsFromData 2
     (JObj [(''id'', JNum 7), (''title'', JStr ''Hi''),
            (''author'', JObj [(''id'', JNum 9), (''name'', JStr ''A'')]),
            (''images'', JArr [JObj [(''id'', JNum 1), (''url'', JStr ''a'')]]),
            (''seo'', JObj [(''id'', JNum 3), (''metaTitle'', JStr ''M'')])])
     (JObj [(''attributes'', JObj
        [(''images'', JObj [(''type'', JStr ''component''), (''component'', JStr ''img''),
                            (''repeatable'', JBool True)]),
         (''seo'', JObj [(''type'', JStr ''component''), (''component'', JStr ''meta'')])])])
     (JObj [(''img'', JObj [])]) None =
     Inr (JObj [(''title'', JStr ''Hi''),
                 (''author'', JObj [(''id'', JNum 9), (''name'', JStr ''A'')]),
                 (''images'', JArr [JObj [(''url'', JStr ''a'')]]),
                 (''seo'', JObj [(''metaTitle'', JStr ''M'')])])"
    by code_simp
  moreover have "11 \<le> length exampleHeap"
    by (simp add: exampleHeap_def)
  ultimately show ?thesis
    using heap_run_refines [OF _ example_entry_read example_schema_read example_table_read,
      of 2 None]
    by simp
qed

end
